theory Spec2Isabelle
  imports Main
begin

section \<open>The dependency-tracking core of \<^verbatim>\<open>src/core/derivation.ts\<close>\<close>

text \<open>
  Atoms, computed values and reactions are JavaScript objects that refer to each other
  (a cell lists its observers, a derivation lists the cells it observes), and the code
  mutates them in place. An object is an identity of type \<open>oid\<close>; every field of the
  interfaces \<^verbatim>\<open>IObservable\<close> and \<^verbatim>\<open>IDerivation\<close> is a function from identities
  to the field's value, so that two references to one object see each other's writes.
\<close>

type_synonym oid = nat

subsection \<open>\<^verbatim>\<open>enum IDerivationState\<close>\<close>

datatype IDerivationState = NOT_TRACKING | UP_TO_DATE | POSSIBLY_STALE | STALE

text \<open>The numeric values of the enumeration; the source compares states by them.\<close>

fun stateValue :: "IDerivationState \<Rightarrow> int" where
  "stateValue NOT_TRACKING = -1"
| "stateValue UP_TO_DATE = 0"
| "stateValue POSSIBLY_STALE = 1"
| "stateValue STALE = 2"

subsection \<open>Failures\<close>

text \<open>
  A JavaScript exception is a value: \<open>TypeError\<close> is what a property access on
  \<^verbatim>\<open>undefined\<close> or \<^verbatim>\<open>null\<close> raises, \<open>Failure msg\<close> is what \<^verbatim>\<open>fail(msg)\<close> raises,
  and \<open>Thrown e\<close> is a value thrown by code the core calls back into. A computation that
  may raise returns \<open>(Inl exception, state)\<close> or \<open>(Inr value, state)\<close>: the state mutated
  before a raise stays mutated.
\<close>

datatype 'e exn = TypeError | Failure string | Thrown 'e

text \<open>\<^verbatim>\<open>class CaughtException\<close>, and the union \<^verbatim>\<open>T | CaughtException\<close> that
  \<^verbatim>\<open>trackDerivedFunction\<close> returns.\<close>

datatype ('x, 'a) tracked = CaughtException 'x | Value 'a

fun isCaughtException :: "('x, 'a) tracked \<Rightarrow> bool" where
  "isCaughtException (CaughtException e) = True"
| "isCaughtException (Value v) = False"

subsection \<open>The state: \<^verbatim>\<open>globalState\<close> and the objects' fields\<close>

text \<open>
  \<open>dependenciesState\<close> is \<open>None\<close> on an object that has no such property (a plain
  observable: the source reads it there through an upcast and gets \<^verbatim>\<open>undefined\<close>).
  \<open>observing\<close> is an \<^verbatim>\<open>IObservable[]\<close>. \<open>newObserving\<close> is \<^verbatim>\<open>null\<close> (\<open>None\<close>) or
  the array allocated by \<^verbatim>\<open>new Array(n)\<close>, whose slots are empty (\<open>None\<close>) until written.
\<close>

record gstate =
  trackingDerivation :: "oid option"
  globalRunId :: nat
  computationDepth :: int
  allowStateChanges :: bool
  strictMode :: bool
  name :: "oid \<Rightarrow> string"
  observers :: "oid \<Rightarrow> oid list"
  diffValue :: "oid \<Rightarrow> int"
  lowestObserverState :: "oid \<Rightarrow> IDerivationState"
  dependenciesState :: "oid \<Rightarrow> IDerivationState option"
  observing :: "oid \<Rightarrow> oid list"
  newObserving :: "oid \<Rightarrow> oid option list option"
  unboundDepsCount :: "oid \<Rightarrow> nat"
  runId :: "oid \<Rightarrow> nat"

text \<open>Reading slot \<open>i\<close> of a JavaScript array: an empty slot and an index past the end both
  give \<^verbatim>\<open>undefined\<close>.\<close>

definition jsIndex :: "'a option list \<Rightarrow> nat \<Rightarrow> 'a option" where
  "jsIndex xs i = (if i < length xs then xs ! i else None)"

text \<open>Writing slot \<open>i\<close>: an index past the end extends the array with empty slots.\<close>

definition jsStore :: "'a option list \<Rightarrow> nat \<Rightarrow> 'a \<Rightarrow> 'a option list" where
  "jsStore xs i v =
     (if i < length xs then xs[i := Some v]
      else xs @ replicate (i - length xs) None @ [Some v])"

subsection \<open>Collaborators from \<^verbatim>\<open>observable.ts\<close>\<close>

text \<open>
  Modelled from the spec: \<^verbatim>\<open>addObserver\<close> of \<^verbatim>\<open>observable.ts\<close>, which is not among
  the sources. The spec: a cell is subscribed by adding the derivation to that cell's
  observer set. The observers are the array \<^verbatim>\<open>observers\<close> whose length the mutation
  guard reads; the derivation is put at its end.
\<close>

definition addObserver :: "oid \<Rightarrow> oid \<Rightarrow> gstate \<Rightarrow> gstate" where
  "addObserver observable node s =
     s\<lparr>observers := (observers s)(observable := observers s observable @ [node])\<rparr>"

text \<open>
  Modelled from the spec: \<^verbatim>\<open>removeObserver\<close> of \<^verbatim>\<open>observable.ts\<close>, which is not
  among the sources. The spec: a cell is unsubscribed by removing the derivation from
  that cell's observer set.
\<close>

definition removeObserver :: "oid \<Rightarrow> oid \<Rightarrow> gstate \<Rightarrow> gstate" where
  "removeObserver observable node s =
     s\<lparr>observers := (observers s)(observable := remove1 node (observers s observable))\<rparr>"

text \<open>
  Modelled from the spec: \<^verbatim>\<open>reportObserved\<close> of \<^verbatim>\<open>observable.ts\<close>, which is not
  among the sources. The spec: every cell read during an evaluation registers itself
  into the pending-read buffer of the current tracking derivation; the buffer may hold
  the same cell more than once; the unbound count is the number of entries at the head
  of the buffer that belong to this run. A read outside any tracking derivation registers
  nothing.
\<close>

definition reportObserved :: "oid \<Rightarrow> gstate \<Rightarrow> gstate" where
  "reportObserved observable s =
     (case trackingDerivation s of
        None \<Rightarrow> s
      | Some derivation \<Rightarrow>
          (case newObserving s derivation of
             None \<Rightarrow> s
           | Some buf \<Rightarrow>
               s\<lparr>newObserving := (newObserving s)(derivation :=
                    Some (jsStore buf (unboundDepsCount s derivation) observable)),
                 unboundDepsCount := (unboundDepsCount s)(derivation :=
                    unboundDepsCount s derivation + 1)\<rparr>))"

subsection \<open>\<^verbatim>\<open>untrackedStart\<close>, \<^verbatim>\<open>untrackedEnd\<close>, \<^verbatim>\<open>untracked\<close>\<close>

definition untrackedStart :: "gstate \<Rightarrow> oid option \<times> gstate" where
  "untrackedStart s = (trackingDerivation s, s\<lparr>trackingDerivation := None\<rparr>)"

definition untrackedEnd :: "oid option \<Rightarrow> gstate \<Rightarrow> gstate" where
  "untrackedEnd prev s = s\<lparr>trackingDerivation := prev\<rparr>"

text \<open>
  \<^verbatim>\<open>const prev = untrackedStart(); const res = action(); untrackedEnd(prev); return res\<close>.
  There is no \<^verbatim>\<open>try\<close> around the call: when \<^verbatim>\<open>action\<close> raises, the two statements
  after it do not run.
\<close>

definition untracked :: "(gstate \<Rightarrow> ('e exn + 'a) \<times> gstate) \<Rightarrow> gstate \<Rightarrow> ('e exn + 'a) \<times> gstate" where
  "untracked action s =
     (case untrackedStart s of
        (prev, s1) \<Rightarrow>
          (case action s1 of
             (Inl e, s2) \<Rightarrow> (Inl e, s2)
           | (Inr res, s2) \<Rightarrow> (Inr res, untrackedEnd prev s2)))"

subsection \<open>\<^verbatim>\<open>changeDependenciesStateTo0\<close>\<close>

text \<open>\<^verbatim>\<open>let i = obs.length; while (i--) obs[i].lowestObserverState = UP_TO_DATE\<close>\<close>

fun resetLowestObserverState :: "oid list \<Rightarrow> nat \<Rightarrow> gstate \<Rightarrow> gstate" where
  "resetLowestObserverState obs 0 s = s"
| "resetLowestObserverState obs (Suc i) s =
     resetLowestObserverState obs i
       (s\<lparr>lowestObserverState := (lowestObserverState s)(obs ! i := UP_TO_DATE)\<rparr>)"

definition changeDependenciesStateTo0 :: "oid \<Rightarrow> gstate \<Rightarrow> gstate" where
  "changeDependenciesStateTo0 derivation s =
     (if dependenciesState s derivation = Some UP_TO_DATE then s
      else
        (let s1 = s\<lparr>dependenciesState := (dependenciesState s)(derivation := Some UP_TO_DATE)\<rparr>;
             obs = observing s1 derivation
         in resetLowestObserverState obs (length obs) s1))"

subsection \<open>\<^verbatim>\<open>checkIfStateModificationsAreAllowed\<close>\<close>

text \<open>
  \<^verbatim>\<open>getMessage\<close> (the table of messages in \<^verbatim>\<open>utils/messages.ts\<close>) is not among the
  sources and is a parameter. \<^verbatim>\<open>fail(msg)\<close> raises \<open>Failure msg\<close>.
\<close>

definition checkIfStateModificationsAreAllowed ::
  "(string \<Rightarrow> string) \<Rightarrow> oid \<Rightarrow> gstate \<Rightarrow> ('e exn + unit) \<times> gstate" where
  "checkIfStateModificationsAreAllowed getMessage atom s =
     (let hasObservers = length (observers s atom) > 0 in
      if computationDepth s > 0 \<and> hasObservers
        then (Inl (Failure (getMessage ''m031'' @ name s atom)), s)
      else if \<not> allowStateChanges s \<and> hasObservers
        then (Inl (Failure (getMessage (if strictMode s then ''m030a'' else ''m030b'')
                              @ name s atom)), s)
      else (Inr (), s))"

subsection \<open>\<^verbatim>\<open>clearObserving\<close>\<close>

text \<open>\<^verbatim>\<open>let i = obs.length; while (i--) removeObserver(obs[i], derivation)\<close>\<close>

fun removeObservers :: "oid list \<Rightarrow> nat \<Rightarrow> oid \<Rightarrow> gstate \<Rightarrow> gstate" where
  "removeObservers obs 0 derivation s = s"
| "removeObservers obs (Suc i) derivation s =
     removeObservers obs i derivation (removeObserver (obs ! i) derivation s)"

definition clearObserving :: "oid \<Rightarrow> gstate \<Rightarrow> gstate" where
  "clearObserving derivation s =
     (let obs = observing s derivation;
          s1 = s\<lparr>observing := (observing s)(derivation := [])\<rparr>;
          s2 = removeObservers obs (length obs) derivation s1
      in s2\<lparr>dependenciesState := (dependenciesState s2)(derivation := Some NOT_TRACKING)\<rparr>)"

subsection \<open>\<^verbatim>\<open>bindDependencies\<close>\<close>

text \<open>
  The first loop, over the slots \<open>i < l\<close> of the pending-read buffer. The source moves
  each kept cell to slot \<open>i0\<close> of the same array (\<open>i0 \<le> i\<close>, so no slot is overwritten before
  it is read) and cuts the array to length \<open>i0\<close> after the loop; \<open>kept\<close> is that prefix, and
  \<open>i0\<close> its length. A slot that holds no cell makes \<^verbatim>\<open>dep.diffValue\<close> raise; the loop then
  returns the failure together with the prefix kept so far.
\<close>

function bindNewObserving ::
  "oid option list \<Rightarrow> nat \<Rightarrow> nat \<Rightarrow> oid list \<Rightarrow> IDerivationState \<Rightarrow> gstate
     \<Rightarrow> ('e exn \<times> oid list + oid list \<times> IDerivationState) \<times> gstate" where
  "bindNewObserving observing0 l i kept lowest s =
     (if i < l then
        (case jsIndex observing0 i of
           None \<Rightarrow> (Inl (TypeError, kept), s)
         | Some dep \<Rightarrow>
             (let firstOccurrence = (diffValue s dep = 0);
                  s1 = (if firstOccurrence then s\<lparr>diffValue := (diffValue s)(dep := 1)\<rparr> else s);
                  kept1 = (if firstOccurrence then kept @ [dep] else kept);
                  lowest1 = (case dependenciesState s1 dep of
                               None \<Rightarrow> lowest
                             | Some st \<Rightarrow> if stateValue st > stateValue lowest then st else lowest)
              in bindNewObserving observing0 l (i + 1) kept1 lowest1 s1))
      else (Inr (kept, lowest), s))"
  by pat_completeness auto
termination
  by (relation "measure (\<lambda>(observing0, l, i, kept, lowest, s). l - i)") auto

text \<open>The second loop: \<^verbatim>\<open>l = prevObserving.length; while (l--) ...\<close>\<close>

fun unobserveDropped :: "oid list \<Rightarrow> nat \<Rightarrow> oid \<Rightarrow> gstate \<Rightarrow> gstate" where
  "unobserveDropped prevObserving 0 derivation s = s"
| "unobserveDropped prevObserving (Suc l) derivation s =
     (let dep = prevObserving ! l;
          s1 = (if diffValue s dep = 0 then removeObserver dep derivation s else s);
          s2 = s1\<lparr>diffValue := (diffValue s1)(dep := 0)\<rparr>
      in unobserveDropped prevObserving l derivation s2)"

text \<open>The third loop: \<^verbatim>\<open>while (i0--) ...\<close>\<close>

fun observeAdded :: "oid list \<Rightarrow> nat \<Rightarrow> oid \<Rightarrow> gstate \<Rightarrow> gstate" where
  "observeAdded observing1 0 derivation s = s"
| "observeAdded observing1 (Suc i0) derivation s =
     (let dep = observing1 ! i0 in
      if diffValue s dep = 1
        then observeAdded observing1 i0 derivation
               (addObserver dep derivation (s\<lparr>diffValue := (diffValue s)(dep := 0)\<rparr>))
        else observeAdded observing1 i0 derivation s)"

text \<open>
  \<^verbatim>\<open>onBecomeStale\<close> is a method of the derivation, implemented outside the sources (by
  reactions and computed values): a parameter, which may change the state and may raise.

  The source assigns the buffer to \<^verbatim>\<open>derivation.observing\<close> before the first loop, so
  when that loop raises the dependency list is already the new array: its first \<open>i0\<close> slots
  hold the cells kept so far and the slots from \<open>i0\<close> on are those of the buffer. The field
  \<open>observing\<close> is a list of cells and has no empty slot: after such a raise it holds the
  cells of that array in the order of their slots, the empty slots left out. A \<^verbatim>\<open>null\<close>
  buffer makes the first access to it raise, with \<^verbatim>\<open>derivation.observing\<close> already
  \<^verbatim>\<open>null\<close>, for which the empty list stands (\<^verbatim>\<open>trackDerivedFunction\<close>, the only
  caller, allocates the buffer first).
\<close>

definition bindDependencies ::
  "(oid \<Rightarrow> gstate \<Rightarrow> ('e exn + unit) \<times> gstate) \<Rightarrow> oid \<Rightarrow> gstate \<Rightarrow> ('e exn + unit) \<times> gstate" where
  "bindDependencies onBecomeStale derivation s =
     (case newObserving s derivation of
        None \<Rightarrow> (Inl TypeError, s\<lparr>observing := (observing s)(derivation := [])\<rparr>)
      | Some observing0 \<Rightarrow>
          (let prevObserving = observing s derivation;
               s1 = s\<lparr>newObserving := (newObserving s)(derivation := None)\<rparr>
           in case bindNewObserving observing0 (unboundDepsCount s1 derivation) 0 [] UP_TO_DATE s1 of
                (Inl (e, kept), s2) \<Rightarrow>
                  (Inl e,
                   s2\<lparr>observing := (observing s2)(derivation :=
                        kept @ List.map_filter (\<lambda>slot. slot) (drop (length kept) observing0))\<rparr>)
              | (Inr (kept, lowestNewObservingDerivationState), s2) \<Rightarrow>
                  (let s3 = s2\<lparr>observing := (observing s2)(derivation := kept)\<rparr>;
                       s4 = unobserveDropped prevObserving (length prevObserving) derivation s3;
                       s5 = observeAdded kept (length kept) derivation s4
                   in if lowestNewObservingDerivationState \<noteq> UP_TO_DATE
                      then onBecomeStale derivation
                             (s5\<lparr>dependenciesState := (dependenciesState s5)
                                   (derivation := Some lowestNewObservingDerivationState)\<rparr>)
                      else (Inr (), s5))))"

subsection \<open>\<^verbatim>\<open>trackDerivedFunction\<close>\<close>

text \<open>
  The body \<open>f\<close> is a parameter: it runs on the state and returns a value or raises (the
  argument \<^verbatim>\<open>context\<close> only binds \<^verbatim>\<open>this\<close> of the body and is part of \<open>f\<close>). A raise
  of the body is caught and becomes the value \<open>CaughtException e\<close>; a raise of
  \<^verbatim>\<open>bindDependencies\<close> is not caught.
\<close>

definition trackDerivedFunction ::
  "(oid \<Rightarrow> gstate \<Rightarrow> ('e exn + unit) \<times> gstate) \<Rightarrow> oid \<Rightarrow> (gstate \<Rightarrow> ('x + 'a) \<times> gstate)
     \<Rightarrow> gstate \<Rightarrow> ('e exn + ('x, 'a) tracked) \<times> gstate" where
  "trackDerivedFunction onBecomeStale derivation f s =
     (let s1 = changeDependenciesStateTo0 derivation s;
          s2 = s1\<lparr>newObserving := (newObserving s1)(derivation :=
                   Some (replicate (length (observing s1 derivation) + 100) None))\<rparr>;
          s3 = s2\<lparr>unboundDepsCount := (unboundDepsCount s2)(derivation := 0)\<rparr>;
          s4 = s3\<lparr>globalRunId := globalRunId s3 + 1\<rparr>;
          s5 = s4\<lparr>runId := (runId s4)(derivation := globalRunId s4)\<rparr>;
          prevTracking = trackingDerivation s5;
          s6 = s5\<lparr>trackingDerivation := Some derivation\<rparr>
      in case f s6 of
           (r, s7) \<Rightarrow>
             (let result = (case r of Inl e \<Rightarrow> CaughtException e | Inr v \<Rightarrow> Value v);
                  s8 = s7\<lparr>trackingDerivation := prevTracking\<rparr>
              in case bindDependencies onBecomeStale derivation s8 of
                   (Inl e, s9) \<Rightarrow> (Inl e, s9)
                 | (Inr u, s9) \<Rightarrow> (Inr result, s9)))"

subsection \<open>\<^verbatim>\<open>shouldCompute\<close>\<close>

text \<open>
  \<^verbatim>\<open>obj.get()\<close> (the computed value's getter) and \<^verbatim>\<open>isComputedValue\<close> are in
  \<^verbatim>\<open>computedvalue.ts\<close>, not among the sources: parameters. The getter may change any
  part of the state and may raise. The loop runs over the array \<open>obs\<close> read before it;
  the statements after the loop are its last case.
\<close>

fun forceObserving ::
  "(oid \<Rightarrow> gstate \<Rightarrow> ('x + 'v) \<times> gstate) \<Rightarrow> (oid \<Rightarrow> bool) \<Rightarrow> oid \<Rightarrow> oid option \<Rightarrow> oid list
     \<Rightarrow> gstate \<Rightarrow> bool \<times> gstate" where
  "forceObserving get isComputedValue derivation prevUntracked [] s =
     (False, untrackedEnd prevUntracked (changeDependenciesStateTo0 derivation s))"
| "forceObserving get isComputedValue derivation prevUntracked (obj # obs) s =
     (if isComputedValue obj then
        (case get obj s of
           (Inl e, s1) \<Rightarrow> (True, untrackedEnd prevUntracked s1)
         | (Inr v, s1) \<Rightarrow>
             if dependenciesState s1 derivation = Some STALE
               then (True, untrackedEnd prevUntracked s1)
               else forceObserving get isComputedValue derivation prevUntracked obs s1)
      else forceObserving get isComputedValue derivation prevUntracked obs s)"

text \<open>The \<^verbatim>\<open>switch\<close> has no default: on a state that is none of the four (\<open>None\<close>) the
  function falls off its end and returns \<^verbatim>\<open>undefined\<close>, here \<open>None\<close>.\<close>

definition shouldCompute ::
  "(oid \<Rightarrow> gstate \<Rightarrow> ('x + 'v) \<times> gstate) \<Rightarrow> (oid \<Rightarrow> bool) \<Rightarrow> oid \<Rightarrow> gstate
     \<Rightarrow> bool option \<times> gstate" where
  "shouldCompute get isComputedValue derivation s =
     (case dependenciesState s derivation of
        None \<Rightarrow> (None, s)
      | Some UP_TO_DATE \<Rightarrow> (Some False, s)
      | Some NOT_TRACKING \<Rightarrow> (Some True, s)
      | Some STALE \<Rightarrow> (Some True, s)
      | Some POSSIBLY_STALE \<Rightarrow>
          (case untrackedStart s of
             (prevUntracked, s1) \<Rightarrow>
               (case forceObserving get isComputedValue derivation prevUntracked
                       (observing s1 derivation) s1 of
                  (b, s2) \<Rightarrow> (Some b, s2))))"

definition isComputingDerivation :: "gstate \<Rightarrow> bool" where
  "isComputingDerivation s = (trackingDerivation s \<noteq> None)"

subsection \<open>The result of a bind step\<close>

text \<open>
  The definitions of this subsection are not in the source: they say what the loops of
  \<^verbatim>\<open>bindDependencies\<close> compute, and the lemmas below prove that the loops compute it.
  \<open>keptNew dv cs\<close> is the list of the cells of \<open>cs\<close> that the first loop keeps when the
  diff markers are \<open>dv\<close>, \<open>markAll dv cs\<close> the markers it leaves, and \<open>lowestOf ds cs lowest\<close>
  its running maximum of the states \<open>ds\<close> of the cells.
\<close>

fun keptNew :: "(oid \<Rightarrow> int) \<Rightarrow> oid list \<Rightarrow> oid list" where
  "keptNew dv [] = []"
| "keptNew dv (c # cs) = (if dv c = 0 then c # keptNew (dv(c := 1)) cs else keptNew dv cs)"

definition markAll :: "(oid \<Rightarrow> int) \<Rightarrow> oid list \<Rightarrow> oid \<Rightarrow> int" where
  "markAll dv cs = (\<lambda>c. if c \<in> set cs \<and> dv c = 0 then 1 else dv c)"

fun lowestOf :: "(oid \<Rightarrow> IDerivationState option) \<Rightarrow> oid list \<Rightarrow> IDerivationState \<Rightarrow> IDerivationState" where
  "lowestOf ds [] lowest = lowest"
| "lowestOf ds (c # cs) lowest =
     lowestOf ds cs (case ds c of None \<Rightarrow> lowest
                     | Some st \<Rightarrow> if stateValue st > stateValue lowest then st else lowest)"

text \<open>
  The state after the three loops, when the buffer held the cells \<open>cs\<close>: the dependency
  list is \<open>cs\<close> without its repetitions, in the order of first occurrence; the derivation is
  removed from the observers of the cells it no longer reads and put at the end of the
  observers of the cells it did not read before.
\<close>

definition boundState :: "oid \<Rightarrow> oid list \<Rightarrow> gstate \<Rightarrow> gstate" where
  "boundState d cs s =
     s\<lparr>newObserving := (newObserving s)(d := None),
       observing := (observing s)(d := rev (remdups (rev cs))),
       observers := (\<lambda>c. if c \<in> set (observing s d) \<and> c \<notin> set cs
                            then remove1 d (observers s c)
                          else if c \<in> set cs \<and> c \<notin> set (observing s d)
                            then observers s c @ [d]
                          else observers s c)\<rparr>"

text \<open>The last statement of \<^verbatim>\<open>bindDependencies\<close>, on the lowest new observing state \<open>m\<close>.\<close>

definition finishBind ::
  "(oid \<Rightarrow> gstate \<Rightarrow> ('e exn + unit) \<times> gstate) \<Rightarrow> oid \<Rightarrow> IDerivationState \<Rightarrow> gstate
     \<Rightarrow> ('e exn + unit) \<times> gstate" where
  "finishBind onBecomeStale d m s =
     (if m \<noteq> UP_TO_DATE
      then onBecomeStale d (s\<lparr>dependenciesState := (dependenciesState s)(d := Some m)\<rparr>)
      else (Inr (), s))"

text \<open>The state after \<^verbatim>\<open>trackDerivedFunction\<close> ran a body that read the cells \<open>cs\<close>, before
  the stale callback.\<close>

definition trackedState :: "oid \<Rightarrow> oid list \<Rightarrow> gstate \<Rightarrow> gstate" where
  "trackedState d cs s =
     boundState d cs
       ((changeDependenciesStateTo0 d s)
          \<lparr>unboundDepsCount := (unboundDepsCount s)(d := length cs),
           globalRunId := globalRunId s + 1,
           runId := (runId s)(d := globalRunId s + 1)\<rparr>)"

text \<open>
  The maximum of the numeric states of those cells of \<open>deps\<close> that are derivations, and of
  \<open>UP_TO_DATE\<close> (the value the source starts from).
\<close>

definition highestDerivationState :: "gstate \<Rightarrow> oid list \<Rightarrow> int" where
  "highestDerivationState s deps =
     Max (set (0 # map stateValue (List.map_filter (dependenciesState s) deps)))"

subsection \<open>The scan of \<^verbatim>\<open>shouldCompute\<close>, in the words of the spec\<close>

text \<open>
  Not in the source. \<open>forceAll\<close> is the state after forcing, in the order of the list, every
  dependency that is a computed value, and no other. \<open>quietScan\<close> says that every such
  forcing returns a value and leaves the derivation in a state other than \<open>STALE\<close>.
\<close>

fun forceAll ::
  "(oid \<Rightarrow> gstate \<Rightarrow> ('x + 'v) \<times> gstate) \<Rightarrow> (oid \<Rightarrow> bool) \<Rightarrow> oid list \<Rightarrow> gstate \<Rightarrow> gstate" where
  "forceAll get isComputedValue [] s = s"
| "forceAll get isComputedValue (obj # obs) s =
     forceAll get isComputedValue obs (if isComputedValue obj then snd (get obj s) else s)"

fun quietScan ::
  "(oid \<Rightarrow> gstate \<Rightarrow> ('x + 'v) \<times> gstate) \<Rightarrow> (oid \<Rightarrow> bool) \<Rightarrow> oid \<Rightarrow> oid list \<Rightarrow> gstate \<Rightarrow> bool" where
  "quietScan get isComputedValue derivation [] s = True"
| "quietScan get isComputedValue derivation (obj # obs) s =
     (if isComputedValue obj then
        (case get obj s of
           (Inl e, s1) \<Rightarrow> False
         | (Inr v, s1) \<Rightarrow> dependenciesState s1 derivation \<noteq> Some STALE
                          \<and> quietScan get isComputedValue derivation obs s1)
      else quietScan get isComputedValue derivation obs s)"

subsection \<open>Well-formed states\<close>

text \<open>
  Outside a tracking pass every diff marker is neutral, no dependency list and no observer
  array holds an object twice, and a derivation is among a cell's observers if and only if
  the cell is in the derivation's dependency list.
\<close>

definition markersNeutral :: "gstate \<Rightarrow> bool" where
  "markersNeutral s = (\<forall>c. diffValue s c = 0)"

definition subscriptionsConsistent :: "gstate \<Rightarrow> bool" where
  "subscriptionsConsistent s =
     (\<forall>d c. (d \<in> set (observers s c)) = (c \<in> set (observing s d)))"

definition wellFormed :: "gstate \<Rightarrow> bool" where
  "wellFormed s =
     (subscriptionsConsistent s \<and> (\<forall>d. distinct (observing s d))
      \<and> (\<forall>c. distinct (observers s c)) \<and> markersNeutral s)"

text \<open>A stale callback that leaves the dependency list of \<open>d\<close> alone, and the occurrences
  of \<open>d\<close> among the observers of every cell.\<close>

definition keepsSubscriptionsOf ::
  "(oid \<Rightarrow> gstate \<Rightarrow> ('e exn + unit) \<times> gstate) \<Rightarrow> oid \<Rightarrow> bool" where
  "keepsSubscriptionsOf onBecomeStale d =
     (\<forall>t. observing (snd (onBecomeStale d t)) d = observing t d
        \<and> (\<forall>c. count_list (observers (snd (onBecomeStale d t)) c) d
                 = count_list (observers t c) d))"

subsection \<open>Example states and bodies\<close>

text \<open>A state with no subscriptions, from which the examples are built.\<close>

definition exampleState :: gstate where
  "exampleState =
     \<lparr>trackingDerivation = None, globalRunId = 0, computationDepth = 0,
      allowStateChanges = True, strictMode = False, name = (\<lambda>_. ''cell''),
      observers = (\<lambda>_. []), diffValue = (\<lambda>_. 0),
      lowestObserverState = (\<lambda>_. NOT_TRACKING), dependenciesState = (\<lambda>_. None),
      observing = (\<lambda>_. []), newObserving = (\<lambda>_. None),
      unboundDepsCount = (\<lambda>_. 0), runId = (\<lambda>_. 0)\<rparr>"

text \<open>A thunk that raises \<open>e\<close> and changes nothing.\<close>

definition raising :: "'e \<Rightarrow> gstate \<Rightarrow> ('e exn + 'a) \<times> gstate" where
  "raising e s = (Inl (Thrown e), s)"

text \<open>
  A body that reads the cells \<open>cs\<close> in this order, each read reported by
  \<^verbatim>\<open>reportObserved\<close>, and then finishes with \<open>r\<close>: it returns \<open>v\<close> when \<open>r = Inr v\<close> and
  raises \<open>e\<close> when \<open>r = Inl e\<close>.
\<close>

definition readsThen :: "oid list \<Rightarrow> 'r \<Rightarrow> gstate \<Rightarrow> 'r \<times> gstate" where
  "readsThen cs r s = (r, fold reportObserved cs s)"

text \<open>A stale callback that does nothing.\<close>

definition quietCallback :: "oid \<Rightarrow> gstate \<Rightarrow> ('e exn + unit) \<times> gstate" where
  "quietCallback d s = (Inr (), s)"

text \<open>Derivation \<open>5\<close> depends on the cells \<open>10\<close> and \<open>14\<close>.\<close>

definition subscribedExample :: gstate where
  "subscribedExample =
     exampleState\<lparr>observing := (observing exampleState)(5 := [10, 14]),
                  observers := (observers exampleState)(10 := [5], 14 := [5])\<rparr>"

text \<open>The same, at the moment a body has read the cells \<open>10\<close>, \<open>11\<close>, \<open>10\<close>.\<close>

definition pendingExample :: gstate where
  "pendingExample =
     subscribedExample\<lparr>newObserving := (newObserving subscribedExample)
                           (5 := Some [Some 10, Some 11, Some 10, None]),
                        unboundDepsCount := (unboundDepsCount subscribedExample)(5 := 3)\<rparr>"

text \<open>A stale callback that leaves a trace: it sets the floor of the derivation itself.\<close>

definition exampleCallback :: "oid \<Rightarrow> gstate \<Rightarrow> ('e exn + unit) \<times> gstate" where
  "exampleCallback d s =
     (Inr (), s\<lparr>lowestObserverState := (lowestObserverState s)(d := STALE)\<rparr>)"

text \<open>Derivation \<open>5\<close>, up to date, has read the cells \<open>20\<close>, \<open>21\<close>, \<open>20\<close>; cell \<open>21\<close> is an
  up-to-date derivation and cell \<open>20\<close> has the state \<open>st\<close>.\<close>

definition bindExample :: "IDerivationState option \<Rightarrow> gstate" where
  "bindExample st =
     exampleState\<lparr>newObserving := (newObserving exampleState)
                     (5 := Some [Some 20, Some 21, Some 20, None]),
                  unboundDepsCount := (unboundDepsCount exampleState)(5 := 3),
                  dependenciesState := (dependenciesState exampleState)
                     (5 := Some UP_TO_DATE, 20 := st, 21 := Some UP_TO_DATE)\<rparr>"

text \<open>
  A getter for the examples: forcing cell \<open>20\<close> changes nothing, forcing cell \<open>21\<close> marks
  derivation \<open>5\<close> \<open>STALE\<close> (as the propagation of a changed value would), forcing cell \<open>22\<close>
  raises, and forcing any other cell counts one run. The cells from \<open>20\<close> on are computed
  values.
\<close>

definition exampleGet :: "oid \<Rightarrow> gstate \<Rightarrow> (string + unit) \<times> gstate" where
  "exampleGet obj s =
     (if obj = 20 then (Inr (), s)
      else if obj = 21
        then (Inr (), s\<lparr>dependenciesState := (dependenciesState s)(5 := Some STALE)\<rparr>)
      else if obj = 22 then (Inl ''boom'', s)
      else (Inr (), s\<lparr>globalRunId := globalRunId s + 1\<rparr>))"

definition exampleIsComputed :: "oid \<Rightarrow> bool" where
  "exampleIsComputed obj = (20 \<le> obj)"

text \<open>Derivation \<open>5\<close> is \<open>POSSIBLY_STALE\<close> with the dependency list \<open>deps\<close>, while derivation
  \<open>7\<close> is tracking.\<close>

definition possiblyStaleExample :: "oid list \<Rightarrow> gstate" where
  "possiblyStaleExample deps =
     exampleState\<lparr>trackingDerivation := Some 7,
                  dependenciesState := (dependenciesState exampleState)(5 := Some POSSIBLY_STALE),
                  observing := (observing exampleState)(5 := deps)\<rparr>"

text \<open>Derivation \<open>5\<close> is \<open>STALE\<close> when its bind step starts, with the plain cell \<open>10\<close> in its
  buffer.\<close>

definition staleAtBindExample :: gstate where
  "staleAtBindExample =
     exampleState\<lparr>newObserving := (newObserving exampleState)(5 := Some [Some 10, None]),
                  unboundDepsCount := (unboundDepsCount exampleState)(5 := 1),
                  dependenciesState := (dependenciesState exampleState)(5 := Some STALE)\<rparr>"

text \<open>
  A body that reads the cells \<open>cs\<close> and whose writes leave the derivation \<open>d\<close> \<open>STALE\<close> (as
  the propagation of a change to a cell that \<open>d\<close> observed would).
\<close>

definition readsThenMarksStale :: "oid list \<Rightarrow> oid \<Rightarrow> gstate \<Rightarrow> (string + unit) \<times> gstate" where
  "readsThenMarksStale cs d s =
     (Inr (), (fold reportObserved cs s)
                \<lparr>dependenciesState := (dependenciesState (fold reportObserved cs s))(d := Some STALE)\<rparr>)"

section \<open>Properties\<close>

subsection \<open>The mutation guard\<close>

text \<open>
  C10. \<^verbatim>\<open>checkIfStateModificationsAreAllowed\<close> never raises for a cell whose observer
  array is empty, whatever the computation depth and the two flags are; the state is
  returned as it was.
\<close>

theorem unobserved_cell_may_be_mutated:
  "observers s atom = [] \<Longrightarrow>
   checkIfStateModificationsAreAllowed getMessage atom s = (Inr (), s)"
  by (simp add: checkIfStateModificationsAreAllowed_def)

theorem unobserved_cell_may_be_mutated_witness:
  "observers (exampleState\<lparr>computationDepth := 3, allowStateChanges := False,
                strictMode := True\<rparr>) 5 = []
   \<and> checkIfStateModificationsAreAllowed id 5
        (exampleState\<lparr>computationDepth := 3, allowStateChanges := False, strictMode := True\<rparr>)
      = (Inr (), exampleState\<lparr>computationDepth := 3, allowStateChanges := False,
                   strictMode := True\<rparr>)"
  using unobserved_cell_may_be_mutated
    [of "exampleState\<lparr>computationDepth := 3, allowStateChanges := False, strictMode := True\<rparr>"
        5 id]
  by (simp add: exampleState_def)

text \<open>
  C7, as the claim states it, fails: for an observed cell, with the computation depth
  above zero and state changes not allowed, the failure raised is the one of the first
  check (message \<open>m031\<close>), the same failure as when state changes are allowed, and not a
  distinct one.
\<close>

theorem guard_first_check_wins_counterexample:
  "fst (checkIfStateModificationsAreAllowed id 5
     (exampleState\<lparr>computationDepth := 1, allowStateChanges := False, strictMode := True,
         observers := (observers exampleState)(5 := [7])\<rparr>))
   = Inl (Failure (''m031'' @ ''cell''))
  \<and> fst (checkIfStateModificationsAreAllowed id 5
     (exampleState\<lparr>computationDepth := 1, allowStateChanges := True, strictMode := True,
         observers := (observers exampleState)(5 := [7])\<rparr>))
   = Inl (Failure (''m031'' @ ''cell''))"
  by (simp add: checkIfStateModificationsAreAllowed_def exampleState_def)

text \<open>
  C7, amended. For an observed cell: with the computation depth above zero the guard
  raises the failure with message \<open>m031\<close>; with the depth not above zero and state changes
  not allowed it raises the failure with message \<open>m030a\<close> (strict mode) or \<open>m030b\<close>, which
  differs from the first when the message table gives the keys different messages. With
  depth zero and state changes allowed it raises nothing. It never changes the state.
\<close>

theorem guard_checks_in_order:
  assumes "getMessage ''m031'' \<noteq> getMessage ''m030a''"
    and "getMessage ''m031'' \<noteq> getMessage ''m030b''"
  shows "(length (observers s atom) > 0 \<and> computationDepth s > 0 \<longrightarrow>
            fst (checkIfStateModificationsAreAllowed getMessage atom s)
              = Inl (Failure (getMessage ''m031'' @ name s atom)))
       \<and> (length (observers s atom) > 0 \<and> \<not> computationDepth s > 0 \<and> \<not> allowStateChanges s \<longrightarrow>
            fst (checkIfStateModificationsAreAllowed getMessage atom s)
              = Inl (Failure (getMessage (if strictMode s then ''m030a'' else ''m030b'')
                                @ name s atom))
            \<and> fst (checkIfStateModificationsAreAllowed getMessage atom s)
              \<noteq> Inl (Failure (getMessage ''m031'' @ name s atom)))
       \<and> (computationDepth s = 0 \<and> allowStateChanges s \<longrightarrow>
            fst (checkIfStateModificationsAreAllowed getMessage atom s) = Inr ())
       \<and> snd (checkIfStateModificationsAreAllowed getMessage atom s) = s"
  using assms by (auto simp: checkIfStateModificationsAreAllowed_def Let_def)

theorem guard_checks_in_order_witness:
  "id ''m031'' \<noteq> id ''m030a'' \<and> id ''m031'' \<noteq> id ''m030b''
   \<and> length (observers (exampleState\<lparr>allowStateChanges := False,
                observers := (observers exampleState)(5 := [7])\<rparr>) 5) > 0
   \<and> \<not> computationDepth (exampleState\<lparr>allowStateChanges := False,
                observers := (observers exampleState)(5 := [7])\<rparr>) > 0
   \<and> \<not> allowStateChanges (exampleState\<lparr>allowStateChanges := False,
                observers := (observers exampleState)(5 := [7])\<rparr>)
   \<and> fst (checkIfStateModificationsAreAllowed id 5
        (exampleState\<lparr>allowStateChanges := False,
                observers := (observers exampleState)(5 := [7])\<rparr>))
      = Inl (Failure ''m030bcell'')
   \<and> length (observers (exampleState\<lparr>computationDepth := 2,
                observers := (observers exampleState)(5 := [7])\<rparr>) 5) > 0
   \<and> computationDepth (exampleState\<lparr>computationDepth := 2,
                observers := (observers exampleState)(5 := [7])\<rparr>) > 0
   \<and> fst (checkIfStateModificationsAreAllowed id 5
        (exampleState\<lparr>computationDepth := 2,
                observers := (observers exampleState)(5 := [7])\<rparr>))
      = Inl (Failure ''m031cell'')
   \<and> computationDepth (exampleState\<lparr>observers := (observers exampleState)(5 := [7])\<rparr>) = 0
   \<and> allowStateChanges (exampleState\<lparr>observers := (observers exampleState)(5 := [7])\<rparr>)
   \<and> fst (checkIfStateModificationsAreAllowed id 5
        (exampleState\<lparr>observers := (observers exampleState)(5 := [7])\<rparr>)) = Inr ()"
  using
    guard_checks_in_order [of id "exampleState\<lparr>allowStateChanges := False,
                observers := (observers exampleState)(5 := [7])\<rparr>" 5]
    guard_checks_in_order [of id "exampleState\<lparr>computationDepth := 2,
                observers := (observers exampleState)(5 := [7])\<rparr>" 5]
    guard_checks_in_order [of id "exampleState\<lparr>observers := (observers exampleState)(5 := [7])\<rparr>" 5]
  by (simp add: exampleState_def checkIfStateModificationsAreAllowed_def)

subsection \<open>The untracked scope\<close>

lemma untracked_restores_on_return:
  "action (snd (untrackedStart s)) = (Inr res, s') \<Longrightarrow>
   untracked action s = (Inr res, s'\<lparr>trackingDerivation := trackingDerivation s\<rparr>)"
  by (simp add: untracked_def untrackedStart_def untrackedEnd_def)

text \<open>
  C4 does not hold of the code. Entered while derivation \<open>1\<close> is the tracking derivation,
  with a thunk that raises, \<^verbatim>\<open>untracked\<close> lets the failure through and leaves the
  tracking derivation \<^verbatim>\<open>null\<close>: \<^verbatim>\<open>untrackedEnd\<close> is skipped.
\<close>

theorem untracked_raise_leaves_tracking_null:
  "untracked (raising ''boom'') (exampleState\<lparr>trackingDerivation := Some 1\<rparr>)
     = (Inl (Thrown ''boom'') :: string exn + unit,
        exampleState\<lparr>trackingDerivation := None\<rparr>)"
  by (simp add: untracked_def untrackedStart_def raising_def)

subsection \<open>Forcing a derivation up to date\<close>

lemma resetLowestObserverState_frame [simp]:
  "dependenciesState (resetLowestObserverState obs n s) = dependenciesState s"
  "observing (resetLowestObserverState obs n s) = observing s"
  "observers (resetLowestObserverState obs n s) = observers s"
  "diffValue (resetLowestObserverState obs n s) = diffValue s"
  "newObserving (resetLowestObserverState obs n s) = newObserving s"
  "unboundDepsCount (resetLowestObserverState obs n s) = unboundDepsCount s"
  "trackingDerivation (resetLowestObserverState obs n s) = trackingDerivation s"
  "globalRunId (resetLowestObserverState obs n s) = globalRunId s"
  "runId (resetLowestObserverState obs n s) = runId s"
  by (induction obs n s rule: resetLowestObserverState.induct) simp_all

lemma resetLowestObserverState_floor:
  "n \<le> length obs \<Longrightarrow>
   lowestObserverState (resetLowestObserverState obs n s) c =
     (if c \<in> set (take n obs) then UP_TO_DATE else lowestObserverState s c)"
proof (induction obs n s rule: resetLowestObserverState.induct)
  case (1 obs s)
  then show ?case by simp
next
  case (2 obs i s)
  then show ?case by (auto simp: take_Suc_conv_app_nth)
qed

text \<open>
  C9, as the claim states it, fails: a derivation that is already \<open>UP_TO_DATE\<close> makes
  \<^verbatim>\<open>changeDependenciesStateTo0\<close> return at once, and the floors of its dependencies stay
  what they were (here \<open>NOT_TRACKING\<close> on cell \<open>10\<close> and \<open>STALE\<close> on cell \<open>11\<close>).
\<close>

theorem floors_kept_when_up_to_date_counterexample:
  "dependenciesState
     (exampleState\<lparr>dependenciesState := (dependenciesState exampleState)(1 := Some UP_TO_DATE),
        observing := (observing exampleState)(1 := [10, 11]),
        lowestObserverState := (lowestObserverState exampleState)(11 := STALE)\<rparr>) 1
     = Some UP_TO_DATE
   \<and> lowestObserverState (changeDependenciesStateTo0 1
       (exampleState\<lparr>dependenciesState := (dependenciesState exampleState)(1 := Some UP_TO_DATE),
        observing := (observing exampleState)(1 := [10, 11]),
        lowestObserverState := (lowestObserverState exampleState)(11 := STALE)\<rparr>)) 11 = STALE
   \<and> lowestObserverState (changeDependenciesStateTo0 1
       (exampleState\<lparr>dependenciesState := (dependenciesState exampleState)(1 := Some UP_TO_DATE),
        observing := (observing exampleState)(1 := [10, 11]),
        lowestObserverState := (lowestObserverState exampleState)(11 := STALE)\<rparr>)) 10
     = NOT_TRACKING"
  by (simp add: changeDependenciesStateTo0_def exampleState_def)

text \<open>
  C9, amended. After \<^verbatim>\<open>changeDependenciesStateTo0\<close> the derivation is \<open>UP_TO_DATE\<close>
  and its dependency list is the same. If it was not \<open>UP_TO_DATE\<close> before the call, the
  floor of every cell of the dependency list is \<open>UP_TO_DATE\<close> afterwards; if it was, the
  call changes nothing.
\<close>

theorem changeDependenciesStateTo0_resets_floors:
  "dependenciesState (changeDependenciesStateTo0 d s) d = Some UP_TO_DATE
   \<and> observing (changeDependenciesStateTo0 d s) d = observing s d
   \<and> (dependenciesState s d \<noteq> Some UP_TO_DATE \<longrightarrow>
        (\<forall>c \<in> set (observing s d).
           lowestObserverState (changeDependenciesStateTo0 d s) c = UP_TO_DATE))
   \<and> (dependenciesState s d = Some UP_TO_DATE \<longrightarrow> changeDependenciesStateTo0 d s = s)"
  by (simp add: changeDependenciesStateTo0_def Let_def resetLowestObserverState_floor)

theorem changeDependenciesStateTo0_resets_floors_witness:
  "dependenciesState
     (exampleState\<lparr>dependenciesState := (dependenciesState exampleState)(1 := Some STALE),
        observing := (observing exampleState)(1 := [10, 11]),
        lowestObserverState := (lowestObserverState exampleState)(11 := STALE)\<rparr>) 1
     \<noteq> Some UP_TO_DATE
   \<and> 11 \<in> set (observing
       (exampleState\<lparr>dependenciesState := (dependenciesState exampleState)(1 := Some STALE),
        observing := (observing exampleState)(1 := [10, 11]),
        lowestObserverState := (lowestObserverState exampleState)(11 := STALE)\<rparr>) 1)
   \<and> lowestObserverState (changeDependenciesStateTo0 1
       (exampleState\<lparr>dependenciesState := (dependenciesState exampleState)(1 := Some STALE),
        observing := (observing exampleState)(1 := [10, 11]),
        lowestObserverState := (lowestObserverState exampleState)(11 := STALE)\<rparr>)) 11
     = UP_TO_DATE
   \<and> dependenciesState (exampleState\<lparr>dependenciesState :=
        (dependenciesState exampleState)(2 := Some UP_TO_DATE)\<rparr>) 2 = Some UP_TO_DATE
   \<and> changeDependenciesStateTo0 2 (exampleState\<lparr>dependenciesState :=
        (dependenciesState exampleState)(2 := Some UP_TO_DATE)\<rparr>)
     = exampleState\<lparr>dependenciesState := (dependenciesState exampleState)(2 := Some UP_TO_DATE)\<rparr>"
  using
    changeDependenciesStateTo0_resets_floors [of 1
      "exampleState\<lparr>dependenciesState := (dependenciesState exampleState)(1 := Some STALE),
        observing := (observing exampleState)(1 := [10, 11]),
        lowestObserverState := (lowestObserverState exampleState)(11 := STALE)\<rparr>"]
    changeDependenciesStateTo0_resets_floors [of 2
      "exampleState\<lparr>dependenciesState := (dependenciesState exampleState)(2 := Some UP_TO_DATE)\<rparr>"]
  by (simp add: exampleState_def)

subsection \<open>The loops of the bind step\<close>

declare bindNewObserving.simps [simp del]

lemma remdups_snoc:
  "remdups (xs @ [c]) = filter (\<lambda>x. x \<noteq> c) (remdups xs) @ [c]"
  by (induction xs) auto

lemma firsts_Cons:
  "rev (remdups (rev (c # cs))) = c # filter (\<lambda>x. x \<noteq> c) (rev (remdups (rev cs)))"
  by (simp add: remdups_snoc rev_filter)

lemma keptNew_filter:
  "keptNew dv cs = filter (\<lambda>c. dv c = 0) (rev (remdups (rev cs)))"
proof (induction cs arbitrary: dv)
  case Nil
  then show ?case by simp
next
  case (Cons c cs)
  show ?case
  proof (cases "dv c = 0")
    case True
    then show ?thesis
      unfolding firsts_Cons by (auto simp: Cons.IH intro: filter_cong)
  next
    case False
    then show ?thesis
      unfolding firsts_Cons by (auto simp: Cons.IH intro: filter_cong)
  qed
qed

lemma keptNew_neutral: "\<forall>c. dv c = 0 \<Longrightarrow> keptNew dv cs = rev (remdups (rev cs))"
  by (simp add: keptNew_filter)

lemma markAll_Cons:
  "markAll dv (c # cs) = markAll (if dv c = 0 then dv(c := 1) else dv) cs"
  by (auto simp: markAll_def fun_eq_iff)

lemma bindNewObserving_run:
  assumes buf: "take l observing0 = map Some cs" and len: "length cs = l"
  shows "i \<le> l \<Longrightarrow>
    bindNewObserving observing0 l i kept lowest s =
      (Inr (kept @ keptNew (diffValue s) (drop i cs),
            lowestOf (dependenciesState s) (drop i cs) lowest),
       s\<lparr>diffValue := markAll (diffValue s) (drop i cs)\<rparr>)"
proof (induction "l - i" arbitrary: i kept lowest s)
  case 0
  then have "i = l" by simp
  then show ?case
    by (subst bindNewObserving.simps) (simp add: len markAll_def)
next
  case (Suc n)
  then have il: "i < l" by simp
  have inb: "i < length observing0"
  proof -
    have "length (take l observing0) = l" using buf len by simp
    then show ?thesis using il by simp
  qed
  have "observing0 ! i = take l observing0 ! i" using il by simp
  also have "\<dots> = Some (cs ! i)" using buf il len by simp
  finally have idx: "jsIndex observing0 i = Some (cs ! i)"
    using inb by (simp add: jsIndex_def)
  have dr: "drop i cs = cs ! i # drop (Suc i) cs"
    using il len by (simp add: Cons_nth_drop_Suc)
  have n: "n = l - (i + 1)" using Suc.hyps(2) by simp
  have le: "i + 1 \<le> l" using il by simp
  show ?case
    apply (subst bindNewObserving.simps)
    apply (simp only: il if_True idx option.case Let_def)
    apply (subst Suc.hyps(1) [OF n le])
    apply (simp add: dr markAll_Cons)
    done
qed

lemma unobserveDropped_run:
  "distinct prev \<Longrightarrow> l \<le> length prev \<Longrightarrow>
   unobserveDropped prev l d s =
     s\<lparr>observers := (\<lambda>c. if c \<in> set (take l prev) \<and> diffValue s c = 0
                          then remove1 d (observers s c) else observers s c),
       diffValue := (\<lambda>c. if c \<in> set (take l prev) then 0 else diffValue s c)\<rparr>"
proof (induction l arbitrary: s)
  case 0
  then show ?case by simp
next
  case (Suc l)
  then have ll: "l < length prev" by simp
  have notin: "prev ! l \<notin> set (take l prev)"
    using Suc.prems(1) ll by (auto simp: in_set_conv_nth distinct_conv_nth)
  have tk: "take (Suc l) prev = take l prev @ [prev ! l]"
    using ll by (simp add: take_Suc_conv_app_nth)
  show ?case
    using notin Suc.prems ll
    by (auto simp: Suc.IH Let_def tk removeObserver_def fun_eq_iff
             intro!: arg_cong2 [where f = "\<lambda>a b. s\<lparr>observers := a, diffValue := b\<rparr>"])
qed

lemma observeAdded_run:
  "distinct kept \<Longrightarrow> i0 \<le> length kept \<Longrightarrow>
   observeAdded kept i0 d s =
     s\<lparr>observers := (\<lambda>c. if c \<in> set (take i0 kept) \<and> diffValue s c = 1
                          then observers s c @ [d] else observers s c),
       diffValue := (\<lambda>c. if c \<in> set (take i0 kept) \<and> diffValue s c = 1
                          then 0 else diffValue s c)\<rparr>"
proof (induction i0 arbitrary: s)
  case 0
  then show ?case by simp
next
  case (Suc i0)
  then have ll: "i0 < length kept" by simp
  have notin: "kept ! i0 \<notin> set (take i0 kept)"
    using Suc.prems(1) ll by (auto simp: in_set_conv_nth distinct_conv_nth)
  have tk: "take (Suc i0) kept = take i0 kept @ [kept ! i0]"
    using ll by (simp add: take_Suc_conv_app_nth)
  show ?case
    using notin Suc.prems ll
    by (auto simp: Suc.IH Let_def tk addObserver_def fun_eq_iff
             intro!: arg_cong2 [where f = "\<lambda>a b. s\<lparr>observers := a, diffValue := b\<rparr>"])
qed

lemma bindDependencies_run:
  assumes nb: "newObserving s d = Some buf"
    and buf: "take (unboundDepsCount s d) buf = map Some cs"
    and len: "length cs = unboundDepsCount s d"
    and neutral: "\<forall>c. diffValue s c = 0"
    and dist: "distinct (observing s d)"
  shows "bindDependencies onBecomeStale d s =
           finishBind onBecomeStale d (lowestOf (dependenciesState s) cs UP_TO_DATE)
             (boundState d cs s)"
proof -
  let ?s1 = "s\<lparr>newObserving := (newObserving s)(d := None)\<rparr>"
  let ?kept = "rev (remdups (rev cs))"
  have l1: "bindNewObserving buf (unboundDepsCount s d) 0 [] UP_TO_DATE ?s1 =
      (Inr (?kept, lowestOf (dependenciesState s) cs UP_TO_DATE),
       ?s1\<lparr>diffValue := markAll (diffValue s) cs\<rparr>)"
    using bindNewObserving_run [of "unboundDepsCount s d" buf cs 0 "[]" UP_TO_DATE ?s1]
      buf len neutral
    by (simp add: keptNew_neutral)
  have dk: "distinct ?kept" by simp
  have st: "observeAdded ?kept (length ?kept) d
          (unobserveDropped (observing s d) (length (observing s d)) d
            (?s1\<lparr>diffValue := markAll (diffValue s) cs, observing := (observing s)(d := ?kept)\<rparr>))
        = boundState d cs s"
    using neutral
    by (auto simp: unobserveDropped_run [OF dist] observeAdded_run [OF dk] boundState_def
          markAll_def fun_eq_iff
          intro!: arg_cong2 [where f = "\<lambda>a b. s\<lparr>observers := a, diffValue := b\<rparr>"])
  show ?thesis
    unfolding bindDependencies_def using st
    by (simp add: nb l1 Let_def finishBind_def)
qed

lemma take_jsStore:
  assumes "take k buf = map Some done" and "length done = k"
  shows "take (Suc k) (jsStore buf k c) = map Some (done @ [c])"
proof (cases "k < length buf")
  case True
  then show ?thesis
    using assms by (simp add: jsStore_def take_Suc_conv_app_nth)
next
  case False
  have "length (take k buf) = k" using assms by simp
  then have "k = length buf" using False by simp
  then show ?thesis using assms by (simp add: jsStore_def)
qed

lemma fold_reportObserved:
  assumes "trackingDerivation s = Some d"
  shows "newObserving s d = Some buf \<Longrightarrow> take (unboundDepsCount s d) buf = map Some done \<Longrightarrow>
     length done = unboundDepsCount s d \<Longrightarrow>
     \<exists>buf'. fold reportObserved cs s =
         s\<lparr>newObserving := (newObserving s)(d := Some buf'),
           unboundDepsCount := (unboundDepsCount s)(d := unboundDepsCount s d + length cs)\<rparr>
       \<and> take (unboundDepsCount s d + length cs) buf' = map Some (done @ cs)"
  using assms
proof (induction cs arbitrary: s buf "done")
  case Nil
  have a: "(newObserving s)(d := Some buf) = newObserving s"
    using Nil.prems(1) by (simp add: fun_upd_idem)
  have b: "(unboundDepsCount s)(d := unboundDepsCount s d) = unboundDepsCount s"
    by simp
  show ?case
    apply (rule exI [where x = buf])
    apply (simp only: a b list.size append_Nil2 add_0_right)
    using Nil.prems(2) apply simp
    done
next
  case (Cons c cs)
  let ?k = "unboundDepsCount s d"
  let ?s1 = "s\<lparr>newObserving := (newObserving s)(d := Some (jsStore buf ?k c)),
                unboundDepsCount := (unboundDepsCount s)(d := ?k + 1)\<rparr>"
  have step: "reportObserved c s = ?s1"
    using Cons.prems by (simp add: reportObserved_def)
  have tk: "take (unboundDepsCount ?s1 d) (jsStore buf ?k c) = map Some (done @ [c])"
    using take_jsStore [OF Cons.prems(2) Cons.prems(3)] by simp
  have "\<exists>buf'. fold reportObserved cs ?s1 =
         ?s1\<lparr>newObserving := (newObserving ?s1)(d := Some buf'),
           unboundDepsCount := (unboundDepsCount ?s1)(d := unboundDepsCount ?s1 d + length cs)\<rparr>
       \<and> take (unboundDepsCount ?s1 d + length cs) buf' = map Some ((done @ [c]) @ cs)"
    by (rule Cons.IH [OF _ tk]) (use Cons.prems in simp_all)
  then obtain buf' where
    f: "fold reportObserved cs ?s1 =
         ?s1\<lparr>newObserving := (newObserving ?s1)(d := Some buf'),
           unboundDepsCount := (unboundDepsCount ?s1)(d := unboundDepsCount ?s1 d + length cs)\<rparr>"
    and t: "take (unboundDepsCount ?s1 d + length cs) buf' = map Some ((done @ [c]) @ cs)"
    by blast
  have e: "fold reportObserved (c # cs) s = fold reportObserved cs ?s1"
    by (simp add: step)
  have f': "fold reportObserved cs ?s1 =
      s\<lparr>newObserving := (newObserving s)(d := Some buf'),
        unboundDepsCount := (unboundDepsCount s)(d := unboundDepsCount s d + length (c # cs))\<rparr>"
    using f by simp
  have t': "take (unboundDepsCount s d + length (c # cs)) buf' = map Some (done @ c # cs)"
    using t by simp
  show ?case
    unfolding e using f' t' by blast
qed

lemma changeDependenciesStateTo0_frame [simp]:
  "observing (changeDependenciesStateTo0 d s) = observing s"
  "observers (changeDependenciesStateTo0 d s) = observers s"
  "diffValue (changeDependenciesStateTo0 d s) = diffValue s"
  "newObserving (changeDependenciesStateTo0 d s) = newObserving s"
  "unboundDepsCount (changeDependenciesStateTo0 d s) = unboundDepsCount s"
  "trackingDerivation (changeDependenciesStateTo0 d s) = trackingDerivation s"
  "globalRunId (changeDependenciesStateTo0 d s) = globalRunId s"
  "runId (changeDependenciesStateTo0 d s) = runId s"
  by (simp_all add: changeDependenciesStateTo0_def Let_def)

lemma changeDependenciesStateTo0_state [simp]:
  "dependenciesState (changeDependenciesStateTo0 d s) = (dependenciesState s)(d := Some UP_TO_DATE)"
  by (auto simp: changeDependenciesStateTo0_def Let_def fun_eq_iff)

lemma resetLowestObserverState_eq:
  "resetLowestObserverState obs n s =
     s\<lparr>lowestObserverState := lowestObserverState (resetLowestObserverState obs n s)\<rparr>"
proof (induction obs n s rule: resetLowestObserverState.induct)
  case (1 obs s)
  then show ?case by simp
next
  case (2 obs i s)
  show ?case
    by (subst resetLowestObserverState.simps, subst "2.IH") simp
qed

lemma changeDependenciesStateTo0_eq:
  "changeDependenciesStateTo0 d s =
     s\<lparr>dependenciesState := (dependenciesState s)(d := Some UP_TO_DATE),
       lowestObserverState := lowestObserverState (changeDependenciesStateTo0 d s)\<rparr>"
proof (cases "dependenciesState s d = Some UP_TO_DATE")
  case True
  then show ?thesis by (simp add: changeDependenciesStateTo0_def fun_upd_idem)
next
  case False
  then show ?thesis
    unfolding changeDependenciesStateTo0_def Let_def
    by (simp, subst resetLowestObserverState_eq) simp
qed

lemma trackDerivedFunction_reads:
  assumes neutral: "\<forall>c. diffValue s c = 0" and dist: "distinct (observing s d)"
  shows "trackDerivedFunction onBecomeStale d (readsThen cs r) s =
     (case finishBind onBecomeStale d
             (lowestOf ((dependenciesState s)(d := Some UP_TO_DATE)) cs UP_TO_DATE)
             (trackedState d cs s) of
        (Inl e, s9) \<Rightarrow> (Inl e, s9)
      | (Inr u, s9) \<Rightarrow> (Inr (case r of Inl e \<Rightarrow> CaughtException e | Inr v \<Rightarrow> Value v), s9))"
proof -
  define s1 where "s1 = changeDependenciesStateTo0 d s"
  define s6 where "s6 = s1\<lparr>newObserving := (newObserving s1)(d :=
                   Some (replicate (length (observing s1 d) + 100) None)),
                unboundDepsCount := (unboundDepsCount s1)(d := 0),
                globalRunId := globalRunId s1 + 1,
                runId := (runId s1)(d := globalRunId s1 + 1),
                trackingDerivation := Some d\<rparr>"
  define s7 where "s7 = fold reportObserved cs s6"
  have "\<exists>buf'. fold reportObserved cs s6 =
         s6\<lparr>newObserving := (newObserving s6)(d := Some buf'),
           unboundDepsCount := (unboundDepsCount s6)(d := unboundDepsCount s6 d + length cs)\<rparr>
       \<and> take (unboundDepsCount s6 d + length cs) buf' = map Some ([] @ cs)"
    by (rule fold_reportObserved [where buf = "replicate (length (observing s1 d) + 100) None"])
       (simp_all add: s6_def)
  then obtain buf' where
    f: "s7 = s6\<lparr>newObserving := (newObserving s6)(d := Some buf'),
           unboundDepsCount := (unboundDepsCount s6)(d := unboundDepsCount s6 d + length cs)\<rparr>"
    and t: "take (length cs) buf' = map Some cs"
    by (auto simp: s6_def s7_def)
  define s8 where "s8 = s7\<lparr>trackingDerivation := trackingDerivation s\<rparr>"
  have b: "bindDependencies onBecomeStale d s8 =
           finishBind onBecomeStale d (lowestOf (dependenciesState s8) cs UP_TO_DATE)
             (boundState d cs s8)"
    by (rule bindDependencies_run [where buf = buf'])
       (use neutral dist t in \<open>simp_all add: f s8_def s6_def s1_def\<close>)
  define fl where "fl = lowestObserverState (changeDependenciesStateTo0 d s)"
  have c0: "changeDependenciesStateTo0 d s =
     s\<lparr>dependenciesState := (dependenciesState s)(d := Some UP_TO_DATE),
       lowestObserverState := fl\<rparr>"
    unfolding fl_def by (rule changeDependenciesStateTo0_eq)
  have bs: "boundState d cs s8 = trackedState d cs s"
    by (simp add: f boundState_def trackedState_def s8_def s6_def s1_def c0 cong: if_cong)
  have ds: "dependenciesState s8 = (dependenciesState s)(d := Some UP_TO_DATE)"
    by (simp add: f s8_def s6_def s1_def)
  have unf: "trackDerivedFunction onBecomeStale d (readsThen cs r) s =
     (case bindDependencies onBecomeStale d s8 of
        (Inl e, s9) \<Rightarrow> (Inl e, s9)
      | (Inr u, s9) \<Rightarrow> (Inr (case r of Inl e \<Rightarrow> CaughtException e | Inr v \<Rightarrow> Value v), s9))"
    unfolding trackDerivedFunction_def readsThen_def s8_def s7_def s6_def s1_def
    by (simp add: Let_def)
  show ?thesis
    unfolding unf b bs ds ..
qed

subsection \<open>Subscriptions after a bind step\<close>

lemma count_list_remove1_same:
  "count_list (remove1 d xs) d = count_list xs d - 1"
  by (induction xs) auto

lemma count_list_zero_notin: "count_list xs d = 0 \<Longrightarrow> d \<notin> set xs"
  by (induction xs) (auto split: if_splits)

lemma count_list_distinct:
  "distinct xs \<Longrightarrow> count_list xs d = (if d \<in> set xs then 1 else 0)"
  by (induction xs) auto

lemma wellFormed_count:
  "wellFormed s \<Longrightarrow> count_list (observers s c) d = (if c \<in> set (observing s d) then 1 else 0)"
  by (simp add: wellFormed_def subscriptionsConsistent_def count_list_distinct)

lemma finishBind_subscriptions:
  assumes "keepsSubscriptionsOf onBecomeStale d"
  shows "observing (snd (finishBind onBecomeStale d m t)) d = observing t d"
    and "count_list (observers (snd (finishBind onBecomeStale d m t)) c) d
           = count_list (observers t c) d"
  using assms by (simp_all add: finishBind_def keepsSubscriptionsOf_def)

lemma trackedState_observing [simp]:
  "observing (trackedState d cs s) d = rev (remdups (rev cs))"
  by (simp add: trackedState_def boundState_def)

lemma trackedState_observers:
  "observers (trackedState d cs s) c =
     (if c \<in> set (observing s d) \<and> c \<notin> set cs then remove1 d (observers s c)
      else if c \<in> set cs \<and> c \<notin> set (observing s d) then observers s c @ [d]
      else observers s c)"
  by (simp add: trackedState_def boundState_def)

lemma trackedState_count:
  assumes "wellFormed s"
  shows "count_list (observers (trackedState d cs s) c) d = (if c \<in> set cs then 1 else 0)"
  using wellFormed_count [OF assms, of c d]
  by (auto simp: trackedState_observers count_list_remove1_same)

lemma snd_case_result:
  "snd (case p of (Inl e, s9) \<Rightarrow> (Inl e, s9) | (Inr u, s9) \<Rightarrow> (Inr (g u), s9)) = snd p"
  by (cases p) (auto split: sum.splits)

lemma wellFormed_subscribedExample: "wellFormed subscribedExample"
  by (auto simp: wellFormed_def subscriptionsConsistent_def markersNeutral_def
        subscribedExample_def exampleState_def)

lemma keepsSubscriptionsOf_quietCallback: "keepsSubscriptionsOf quietCallback d"
  by (simp add: keepsSubscriptionsOf_def quietCallback_def)

text \<open>
  C1. Let the state be well formed, and let the stale callback leave the subscriptions of
  the derivation \<open>d\<close> alone. After \<^verbatim>\<open>trackDerivedFunction\<close> ran a body that read the cells
  \<open>cs\<close> (any sequence, with repetitions), the dependency list of \<open>d\<close> is the sequence of the
  first occurrences in \<open>cs\<close>, in read order; \<open>d\<close> occurs exactly once among the observers
  of every cell that was read (and did not occur there before when the cell was not in the
  previous dependency list); and \<open>d\<close> is no longer among the observers of a cell of the
  previous dependency list that was not read again.
\<close>

theorem tracking_binds_first_occurrences:
  assumes wf: "wellFormed s" and cb: "keepsSubscriptionsOf onBecomeStale d"
  shows "observing (snd (trackDerivedFunction onBecomeStale d (readsThen cs r) s)) d
           = rev (remdups (rev cs))
       \<and> (\<forall>c \<in> set cs.
            count_list (observers (snd (trackDerivedFunction onBecomeStale d (readsThen cs r) s)) c) d = 1)
       \<and> (\<forall>c \<in> set cs. c \<notin> set (observing s d) \<longrightarrow> d \<notin> set (observers s c))
       \<and> (\<forall>c \<in> set (observing s d). c \<notin> set cs \<longrightarrow>
            d \<notin> set (observers (snd (trackDerivedFunction onBecomeStale d (readsThen cs r) s)) c))"
proof -
  have neutral: "\<forall>c. diffValue s c = 0" and dist: "distinct (observing s d)"
    using wf by (simp_all add: wellFormed_def markersNeutral_def)
  let ?m = "lowestOf ((dependenciesState s)(d := Some UP_TO_DATE)) cs UP_TO_DATE"
  have sn: "snd (trackDerivedFunction onBecomeStale d (readsThen cs r) s)
        = snd (finishBind onBecomeStale d ?m (trackedState d cs s))"
    unfolding trackDerivedFunction_reads [OF neutral dist] by (rule snd_case_result)
  have cnt: "count_list (observers (snd (trackDerivedFunction onBecomeStale d (readsThen cs r) s)) c) d
       = (if c \<in> set cs then 1 else 0)" for c
    unfolding sn by (simp add: finishBind_subscriptions [OF cb] trackedState_count [OF wf])
  have a: "observing (snd (trackDerivedFunction onBecomeStale d (readsThen cs r) s)) d
           = rev (remdups (rev cs))"
    unfolding sn by (simp add: finishBind_subscriptions [OF cb])
  have b: "\<forall>c \<in> set cs.
            count_list (observers (snd (trackDerivedFunction onBecomeStale d (readsThen cs r) s)) c) d = 1"
    by (simp add: cnt)
  have c: "\<forall>c \<in> set cs. c \<notin> set (observing s d) \<longrightarrow> d \<notin> set (observers s c)"
    using wf by (simp add: wellFormed_def subscriptionsConsistent_def)
  have d: "\<forall>c \<in> set (observing s d). c \<notin> set cs \<longrightarrow>
            d \<notin> set (observers (snd (trackDerivedFunction onBecomeStale d (readsThen cs r) s)) c)"
  proof (intro ballI impI)
    fix c assume "c \<notin> set cs"
    then have "count_list
        (observers (snd (trackDerivedFunction onBecomeStale d (readsThen cs r) s)) c) d = 0"
      by (simp add: cnt)
    then show "d \<notin> set (observers (snd (trackDerivedFunction onBecomeStale d (readsThen cs r) s)) c)"
      by (rule count_list_zero_notin)
  qed
  show ?thesis using a b c d by blast
qed

theorem tracking_binds_first_occurrences_witness:
  "wellFormed subscribedExample
   \<and> keepsSubscriptionsOf (quietCallback :: oid \<Rightarrow> gstate \<Rightarrow> (string exn + unit) \<times> gstate) 5
   \<and> observing (snd (trackDerivedFunction
         (quietCallback :: oid \<Rightarrow> gstate \<Rightarrow> (string exn + unit) \<times> gstate) 5
         (readsThen [10, 11, 10, 12] (Inr () :: string + unit)) subscribedExample)) 5
       = [10, 11, 12]
   \<and> count_list (observers (snd (trackDerivedFunction
         (quietCallback :: oid \<Rightarrow> gstate \<Rightarrow> (string exn + unit) \<times> gstate) 5
         (readsThen [10, 11, 10, 12] (Inr () :: string + unit)) subscribedExample)) 11) 5 = 1
   \<and> 5 \<notin> set (observers subscribedExample 11)
   \<and> 14 \<in> set (observing subscribedExample 5)
   \<and> 5 \<notin> set (observers (snd (trackDerivedFunction
         (quietCallback :: oid \<Rightarrow> gstate \<Rightarrow> (string exn + unit) \<times> gstate) 5
         (readsThen [10, 11, 10, 12] (Inr () :: string + unit)) subscribedExample)) 14)"
proof -
  have o: "observing subscribedExample 5 = [10, 14]" "observers subscribedExample 11 = []"
    by (simp_all add: subscribedExample_def exampleState_def)
  show ?thesis
    using tracking_binds_first_occurrences [of subscribedExample
        "quietCallback :: oid \<Rightarrow> gstate \<Rightarrow> (string exn + unit) \<times> gstate" 5
        "[10, 11, 10, 12]" "Inr () :: string + unit"]
    by (simp add: keepsSubscriptionsOf_quietCallback wellFormed_subscribedExample o)
qed

text \<open>
  C3, as the claim states it, fails: when the body reads cell \<open>10\<close> and raises,
  \<^verbatim>\<open>trackDerivedFunction\<close> does not raise the failure again; it returns to its caller,
  normally, the value \<open>CaughtException\<close> that holds the failure.
\<close>

theorem body_failure_returned_as_value_counterexample:
  "fst (trackDerivedFunction
         (quietCallback :: oid \<Rightarrow> gstate \<Rightarrow> (string exn + unit) \<times> gstate) 5
         (readsThen [10] (Inl (Thrown ''boom'') :: string exn + unit)) exampleState)
     = Inr (CaughtException (Thrown ''boom''))
   \<and> fst (trackDerivedFunction
         (quietCallback :: oid \<Rightarrow> gstate \<Rightarrow> (string exn + unit) \<times> gstate) 5
         (readsThen [10] (Inl (Thrown ''boom'') :: string exn + unit)) exampleState)
     \<noteq> Inl (Thrown ''boom'')"
proof -
  have n: "\<forall>c. diffValue exampleState c = 0" and d: "distinct (observing exampleState 5)"
    by (simp_all add: exampleState_def)
  show ?thesis
    unfolding trackDerivedFunction_reads [OF n d]
    by (simp add: finishBind_def exampleState_def quietCallback_def)
qed

text \<open>
  C3, amended. Let the state be well formed, and let the stale callback leave the
  subscriptions of \<open>d\<close> alone. When the body reads the cells \<open>cs\<close> and then raises \<open>e\<close>, the
  state after \<^verbatim>\<open>trackDerivedFunction\<close> is the state after a run whose body reads the same
  cells and returns a value: the dependency list is bound in full and \<open>d\<close> occurs exactly
  once among the observers of each cell read. Where the successful run returns its value,
  the failing run returns the value \<open>CaughtException e\<close>: the failure is handed to the caller
  as a value, not raised.
\<close>

theorem body_failure_still_binds:
  fixes e :: 'x and v :: 'a
  assumes wf: "wellFormed s" and cb: "keepsSubscriptionsOf onBecomeStale d"
  shows "snd (trackDerivedFunction onBecomeStale d (readsThen cs (Inl e :: 'x + 'a)) s)
           = snd (trackDerivedFunction onBecomeStale d (readsThen cs (Inr v :: 'x + 'a)) s)
       \<and> observing (snd (trackDerivedFunction onBecomeStale d (readsThen cs (Inl e :: 'x + 'a)) s)) d
           = rev (remdups (rev cs))
       \<and> (\<forall>c \<in> set cs.
            count_list (observers (snd (trackDerivedFunction onBecomeStale d
                            (readsThen cs (Inl e :: 'x + 'a)) s)) c) d = 1)
       \<and> (fst (trackDerivedFunction onBecomeStale d (readsThen cs (Inr v :: 'x + 'a)) s) = Inr (Value v)
            \<longrightarrow> fst (trackDerivedFunction onBecomeStale d (readsThen cs (Inl e :: 'x + 'a)) s)
                  = Inr (CaughtException e))"
proof -
  have neutral: "\<forall>c. diffValue s c = 0" and dist: "distinct (observing s d)"
    using wf by (simp_all add: wellFormed_def markersNeutral_def)
  let ?m = "lowestOf ((dependenciesState s)(d := Some UP_TO_DATE)) cs UP_TO_DATE"
  have sn: "snd (trackDerivedFunction onBecomeStale d (readsThen cs r) s)
        = snd (finishBind onBecomeStale d ?m (trackedState d cs s))" for r :: "'x + 'a"
    unfolding trackDerivedFunction_reads [OF neutral dist] by (rule snd_case_result)
  have a: "snd (trackDerivedFunction onBecomeStale d (readsThen cs (Inl e :: 'x + 'a)) s)
           = snd (trackDerivedFunction onBecomeStale d (readsThen cs (Inr v :: 'x + 'a)) s)"
    using sn [of "Inl e"] sn [of "Inr v"] by simp
  have b: "observing (snd (trackDerivedFunction onBecomeStale d (readsThen cs (Inl e :: 'x + 'a)) s)) d
           = rev (remdups (rev cs))"
    unfolding sn by (simp add: finishBind_subscriptions [OF cb])
  have c: "\<forall>c \<in> set cs.
            count_list (observers (snd (trackDerivedFunction onBecomeStale d
                            (readsThen cs (Inl e :: 'x + 'a)) s)) c) d = 1"
    unfolding sn by (simp add: finishBind_subscriptions [OF cb] trackedState_count [OF wf])
  have d: "fst (trackDerivedFunction onBecomeStale d (readsThen cs (Inr v :: 'x + 'a)) s) = Inr (Value v)
            \<longrightarrow> fst (trackDerivedFunction onBecomeStale d (readsThen cs (Inl e :: 'x + 'a)) s)
                  = Inr (CaughtException e)"
    unfolding trackDerivedFunction_reads [OF neutral dist]
    by (auto split: prod.splits sum.splits)
  show ?thesis using a b c d by blast
qed

theorem body_failure_still_binds_witness:
  "wellFormed subscribedExample
   \<and> keepsSubscriptionsOf (quietCallback :: oid \<Rightarrow> gstate \<Rightarrow> (string exn + unit) \<times> gstate) 5
   \<and> fst (trackDerivedFunction
         (quietCallback :: oid \<Rightarrow> gstate \<Rightarrow> (string exn + unit) \<times> gstate) 5
         (readsThen [10, 11] (Inr () :: string + unit)) subscribedExample) = Inr (Value ())
   \<and> fst (trackDerivedFunction
         (quietCallback :: oid \<Rightarrow> gstate \<Rightarrow> (string exn + unit) \<times> gstate) 5
         (readsThen [10, 11] (Inl ''boom'' :: string + unit)) subscribedExample)
       = Inr (CaughtException ''boom'')
   \<and> observing (snd (trackDerivedFunction
         (quietCallback :: oid \<Rightarrow> gstate \<Rightarrow> (string exn + unit) \<times> gstate) 5
         (readsThen [10, 11] (Inl ''boom'' :: string + unit)) subscribedExample)) 5 = [10, 11]
   \<and> count_list (observers (snd (trackDerivedFunction
         (quietCallback :: oid \<Rightarrow> gstate \<Rightarrow> (string exn + unit) \<times> gstate) 5
         (readsThen [10, 11] (Inl ''boom'' :: string + unit)) subscribedExample)) 11) 5 = 1"
proof -
  have n: "\<forall>c. diffValue subscribedExample c = 0"
    and d: "distinct (observing subscribedExample 5)"
    by (simp_all add: subscribedExample_def exampleState_def)
  have ok: "fst (trackDerivedFunction
         (quietCallback :: oid \<Rightarrow> gstate \<Rightarrow> (string exn + unit) \<times> gstate) 5
         (readsThen [10, 11] (Inr () :: string + unit)) subscribedExample) = Inr (Value ())"
    unfolding trackDerivedFunction_reads [OF n d]
    by (simp add: finishBind_def subscribedExample_def exampleState_def quietCallback_def)
  note t = body_failure_still_binds [of subscribedExample
        "quietCallback :: oid \<Rightarrow> gstate \<Rightarrow> (string exn + unit) \<times> gstate" 5
        "[10, 11]" "''boom''" "()",
      OF wellFormed_subscribedExample keepsSubscriptionsOf_quietCallback]
  have b: "observing (snd (trackDerivedFunction
         (quietCallback :: oid \<Rightarrow> gstate \<Rightarrow> (string exn + unit) \<times> gstate) 5
         (readsThen [10, 11] (Inl ''boom'' :: string + unit)) subscribedExample)) 5 = [10, 11]"
    using t [THEN conjunct2, THEN conjunct1] by simp
  have c: "count_list (observers (snd (trackDerivedFunction
         (quietCallback :: oid \<Rightarrow> gstate \<Rightarrow> (string exn + unit) \<times> gstate) 5
         (readsThen [10, 11] (Inl ''boom'' :: string + unit)) subscribedExample)) 11) 5 = 1"
    using t [THEN conjunct2, THEN conjunct2, THEN conjunct1] by simp
  have d: "fst (trackDerivedFunction
         (quietCallback :: oid \<Rightarrow> gstate \<Rightarrow> (string exn + unit) \<times> gstate) 5
         (readsThen [10, 11] (Inl ''boom'' :: string + unit)) subscribedExample)
       = Inr (CaughtException ''boom'')"
    using t ok by blast
  have k: "keepsSubscriptionsOf
      (quietCallback :: oid \<Rightarrow> gstate \<Rightarrow> (string exn + unit) \<times> gstate) 5"
    by (rule keepsSubscriptionsOf_quietCallback)
  show ?thesis
    using b c d ok k wellFormed_subscribedExample by blast
qed

subsection \<open>The state of the derivation after a bind step\<close>

lemma stateValue_UP_TO_DATE: "(stateValue m = 0) = (m = UP_TO_DATE)"
  by (cases m) simp_all

lemma stateValue_POSSIBLY_STALE: "(stateValue m = 1) = (m = POSSIBLY_STALE)"
  by (cases m) simp_all

lemma stateValue_lowestOf_fold:
  "stateValue (lowestOf ds cs lowest)
     = fold max (map stateValue (List.map_filter ds cs)) (stateValue lowest)"
proof (induction cs arbitrary: lowest)
  case Nil
  then show ?case by simp
next
  case (Cons c cs)
  show ?case
  proof (cases "ds c")
    case None
    then show ?thesis by (simp add: Cons.IH)
  next
    case (Some st)
    then show ?thesis by (simp add: Cons.IH max_def)
  qed
qed

lemma stateValue_lowestOf:
  "stateValue (lowestOf ds cs lowest)
     = Max (set (stateValue lowest # map stateValue (List.map_filter ds cs)))"
  by (simp only: stateValue_lowestOf_fold Max.set_eq_fold)

lemma set_map_filter_eq:
  "set (List.map_filter f xs) = {y. \<exists>x \<in> set xs. f x = Some y}"
  by (induction xs) (auto split: option.splits)

lemma highestDerivationState_set:
  "set xs = set ys \<Longrightarrow> highestDerivationState s xs = highestDerivationState s ys"
  by (simp add: highestDerivationState_def set_map_filter_eq)

lemma boundState_fields [simp]:
  "observing (boundState d cs s) d = rev (remdups (rev cs))"
  "dependenciesState (boundState d cs s) = dependenciesState s"
  "diffValue (boundState d cs s) = diffValue s"
  by (simp_all add: boundState_def)

text \<open>
  C5, as the claim states it, fails in its last part: a derivation that is \<open>STALE\<close> when
  the bind step starts, with no derivation among its new dependencies, is still \<open>STALE\<close>
  after it, not \<open>UP_TO_DATE\<close>; and \<^verbatim>\<open>trackDerivedFunction\<close> reaches such a bind step when
  the body's own writes make the derivation \<open>STALE\<close> again.
\<close>

theorem bind_leaves_stale_state_counterexample:
  "newObserving staleAtBindExample 5 = Some [Some 10, None]
   \<and> unboundDepsCount staleAtBindExample 5 = 1
   \<and> highestDerivationState staleAtBindExample [10] = 0
   \<and> observing (snd (bindDependencies
        (exampleCallback :: oid \<Rightarrow> gstate \<Rightarrow> (string exn + unit) \<times> gstate) 5
        staleAtBindExample)) 5 = [10]
   \<and> dependenciesState (snd (bindDependencies
        (exampleCallback :: oid \<Rightarrow> gstate \<Rightarrow> (string exn + unit) \<times> gstate) 5
        staleAtBindExample)) 5 = Some STALE
   \<and> dependenciesState (snd (trackDerivedFunction
        (exampleCallback :: oid \<Rightarrow> gstate \<Rightarrow> (string exn + unit) \<times> gstate) 5
        (readsThenMarksStale [10] 5) exampleState)) 5 = Some STALE"
proof -
  have pre: "newObserving staleAtBindExample 5 = Some [Some 10, None]"
    "take (unboundDepsCount staleAtBindExample 5) [Some 10, None] = map Some [10 :: oid]"
    "length [10 :: oid] = unboundDepsCount staleAtBindExample 5"
    "\<forall>c. diffValue staleAtBindExample c = 0" "distinct (observing staleAtBindExample 5)"
    by (simp_all add: staleAtBindExample_def exampleState_def)
  have a: "bindDependencies
        (exampleCallback :: oid \<Rightarrow> gstate \<Rightarrow> (string exn + unit) \<times> gstate) 5 staleAtBindExample
      = (Inr (), boundState 5 [10] staleAtBindExample)"
    unfolding bindDependencies_run [OF pre]
    by (simp add: finishBind_def staleAtBindExample_def exampleState_def)
  have h: "highestDerivationState staleAtBindExample [10] = 0"
    by (simp add: highestDerivationState_def staleAtBindExample_def exampleState_def)
  define s6 where "s6 = (changeDependenciesStateTo0 5 exampleState)
       \<lparr>newObserving := (newObserving exampleState)(5 := Some (replicate 100 None)),
        unboundDepsCount := (unboundDepsCount exampleState)(5 := 0),
        globalRunId := 1, runId := (runId exampleState)(5 := 1),
        trackingDerivation := Some 5\<rparr>"
  define s7 where "s7 = fold reportObserved [10] s6"
  have "\<exists>buf'. fold reportObserved [10] s6 =
         s6\<lparr>newObserving := (newObserving s6)(5 := Some buf'),
           unboundDepsCount := (unboundDepsCount s6)(5 := unboundDepsCount s6 5 + length [10 :: oid])\<rparr>
       \<and> take (unboundDepsCount s6 5 + length [10 :: oid]) buf' = map Some ([] @ [10])"
    by (rule fold_reportObserved [where buf = "replicate 100 None"]) (simp_all add: s6_def)
  then obtain buf' where
    f: "s7 = s6\<lparr>newObserving := (newObserving s6)(5 := Some buf'),
           unboundDepsCount := (unboundDepsCount s6)(5 := 1)\<rparr>"
    and t: "take 1 buf' = [Some 10]"
    by (auto simp: s6_def s7_def)
  define s8 where "s8 = s7
       \<lparr>dependenciesState := (dependenciesState s7)(5 := Some STALE),
        trackingDerivation := None\<rparr>"
  have b: "bindDependencies
        (exampleCallback :: oid \<Rightarrow> gstate \<Rightarrow> (string exn + unit) \<times> gstate) 5 s8
      = finishBind exampleCallback 5 (lowestOf (dependenciesState s8) [10] UP_TO_DATE)
          (boundState 5 [10] s8)"
    by (rule bindDependencies_run [where buf = buf'])
       (use t in \<open>simp_all add: f s8_def s6_def exampleState_def\<close>)
  have ds: "dependenciesState s8 10 = None" "dependenciesState s8 5 = Some STALE"
    by (simp_all add: f s8_def s6_def exampleState_def)
  have unf: "trackDerivedFunction
        (exampleCallback :: oid \<Rightarrow> gstate \<Rightarrow> (string exn + unit) \<times> gstate) 5
        (readsThenMarksStale [10] 5) exampleState
      = (case bindDependencies exampleCallback 5 s8 of
           (Inl e, s9) \<Rightarrow> (Inl e, s9) | (Inr u, s9) \<Rightarrow> (Inr (Value ()), s9))"
    unfolding trackDerivedFunction_def readsThenMarksStale_def s8_def s7_def s6_def
    by (simp add: Let_def exampleState_def split: prod.splits sum.splits)
  have c: "dependenciesState (snd (trackDerivedFunction
        (exampleCallback :: oid \<Rightarrow> gstate \<Rightarrow> (string exn + unit) \<times> gstate) 5
        (readsThenMarksStale [10] 5) exampleState)) 5 = Some STALE"
    unfolding unf b by (simp add: finishBind_def ds)
  show ?thesis
    unfolding a using pre(1) h c
    by (simp add: staleAtBindExample_def exampleState_def)
qed

text \<open>
  C5, amended. Let the buffer of \<open>d\<close> hold the cells \<open>cs\<close> in its first \<open>unboundDepsCount\<close>
  slots, the markers be neutral and the previous dependency list hold no cell twice. Take
  the maximum of the states of those cells of the new dependency list that are derivations
  (and of \<open>UP_TO_DATE\<close>). If it is not \<open>UP_TO_DATE\<close>, \<^verbatim>\<open>bindDependencies\<close> sets the state of
  \<open>d\<close> to that maximum and its result is the result of the stale callback, whichever
  callback it is, called on that state; after a callback that does not itself change the
  state of \<open>d\<close>, the state of \<open>d\<close> is that maximum. If it is \<open>UP_TO_DATE\<close>, the result is the
  same for every callback (none is called) and the state of \<open>d\<close> is left what it was when
  the bind step started.
\<close>

theorem bind_raises_state_to_highest_new_dependency:
  assumes nb: "newObserving s d = Some buf"
    and buf: "take (unboundDepsCount s d) buf = map Some cs"
    and len: "length cs = unboundDepsCount s d"
    and neutral: "markersNeutral s"
    and dist: "distinct (observing s d)"
  shows "(highestDerivationState s (observing (boundState d cs s) d) \<noteq> 0 \<longrightarrow>
           (\<exists>m. stateValue m = highestDerivationState s (observing (boundState d cs s) d)
              \<and> (\<forall>onBecomeStale :: oid \<Rightarrow> gstate \<Rightarrow> ('e exn + unit) \<times> gstate.
                    bindDependencies onBecomeStale d s
                      = onBecomeStale d
                          ((boundState d cs s)\<lparr>dependenciesState :=
                              (dependenciesState s)(d := Some m)\<rparr>))
              \<and> (\<forall>onBecomeStale :: oid \<Rightarrow> gstate \<Rightarrow> ('e exn + unit) \<times> gstate.
                    (\<forall>t. dependenciesState (snd (onBecomeStale d t)) d = dependenciesState t d)
                    \<longrightarrow> dependenciesState (snd (bindDependencies onBecomeStale d s)) d
                          = Some m)))
       \<and> (highestDerivationState s (observing (boundState d cs s) d) = 0 \<longrightarrow>
           (\<forall>onBecomeStale :: oid \<Rightarrow> gstate \<Rightarrow> ('e exn + unit) \<times> gstate.
              bindDependencies onBecomeStale d s = (Inr (), boundState d cs s))
           \<and> (\<forall>onBecomeStale :: oid \<Rightarrow> gstate \<Rightarrow> ('e exn + unit) \<times> gstate.
                dependenciesState (snd (bindDependencies onBecomeStale d s)) d
                  = dependenciesState s d))"
proof -
  let ?m = "lowestOf (dependenciesState s) cs UP_TO_DATE"
  have n: "\<forall>c. diffValue s c = 0" using neutral by (simp add: markersNeutral_def)
  have run: "bindDependencies onBecomeStale d s
               = finishBind onBecomeStale d ?m (boundState d cs s)"
    for onBecomeStale :: "oid \<Rightarrow> gstate \<Rightarrow> ('e exn + unit) \<times> gstate"
    by (rule bindDependencies_run [OF nb buf len n dist])
  have "stateValue ?m = highestDerivationState s cs"
    by (simp only: stateValue_lowestOf highestDerivationState_def stateValue.simps)
  also have "\<dots> = highestDerivationState s (observing (boundState d cs s) d)"
    by (rule highestDerivationState_set) simp
  finally have hv: "stateValue ?m = highestDerivationState s (observing (boundState d cs s) d)" .
  show ?thesis
  proof (cases "?m = UP_TO_DATE")
    case True
    then have "highestDerivationState s (observing (boundState d cs s) d) = 0"
      using hv by simp
    then show ?thesis using True by (simp add: run finishBind_def)
  next
    case False
    then have nz: "highestDerivationState s (observing (boundState d cs s) d) \<noteq> 0"
      using hv by (simp add: stateValue_UP_TO_DATE [symmetric])
    have inv: "\<forall>onBecomeStale :: oid \<Rightarrow> gstate \<Rightarrow> ('e exn + unit) \<times> gstate.
            bindDependencies onBecomeStale d s
              = onBecomeStale d ((boundState d cs s)\<lparr>dependenciesState :=
                              (dependenciesState s)(d := Some ?m)\<rparr>)"
      using False by (simp add: run finishBind_def)
    have kept: "\<forall>onBecomeStale :: oid \<Rightarrow> gstate \<Rightarrow> ('e exn + unit) \<times> gstate.
            (\<forall>t. dependenciesState (snd (onBecomeStale d t)) d = dependenciesState t d)
            \<longrightarrow> dependenciesState (snd (bindDependencies onBecomeStale d s)) d = Some ?m"
      using inv by simp
    show ?thesis using nz hv inv kept by blast
  qed
qed

theorem bind_raises_state_to_highest_new_dependency_witness:
  "newObserving (bindExample (Some POSSIBLY_STALE)) 5 = Some [Some 20, Some 21, Some 20, None]
   \<and> take (unboundDepsCount (bindExample (Some POSSIBLY_STALE)) 5)
        [Some 20, Some 21, Some 20, None] = map Some [20, 21, 20 :: oid]
   \<and> markersNeutral (bindExample (Some POSSIBLY_STALE))
   \<and> highestDerivationState (bindExample (Some POSSIBLY_STALE)) [20, 21] = 1
   \<and> dependenciesState (snd (bindDependencies
        (exampleCallback :: oid \<Rightarrow> gstate \<Rightarrow> (string exn + unit) \<times> gstate) 5
        (bindExample (Some POSSIBLY_STALE)))) 5 = Some POSSIBLY_STALE
   \<and> lowestObserverState (snd (bindDependencies
        (exampleCallback :: oid \<Rightarrow> gstate \<Rightarrow> (string exn + unit) \<times> gstate) 5
        (bindExample (Some POSSIBLY_STALE)))) 5 = STALE
   \<and> highestDerivationState (bindExample None) [20, 21] = 0
   \<and> dependenciesState (snd (bindDependencies
        (exampleCallback :: oid \<Rightarrow> gstate \<Rightarrow> (string exn + unit) \<times> gstate) 5
        (bindExample None))) 5 = Some UP_TO_DATE
   \<and> lowestObserverState (snd (bindDependencies
        (exampleCallback :: oid \<Rightarrow> gstate \<Rightarrow> (string exn + unit) \<times> gstate) 5
        (bindExample None))) 5 = NOT_TRACKING"
proof -
  have h1: "highestDerivationState (bindExample (Some POSSIBLY_STALE)) [20, 21] = 1"
    and h0: "highestDerivationState (bindExample None) [20, 21] = 0"
    by (simp_all add: highestDerivationState_def bindExample_def exampleState_def)
  have pre: "newObserving (bindExample st) 5 = Some [Some 20, Some 21, Some 20, None]"
    "take (unboundDepsCount (bindExample st) 5) [Some 20, Some 21, Some 20, None]
       = map Some [20, 21, 20 :: oid]"
    "length [20, 21, 20 :: nat] = unboundDepsCount (bindExample st) 5"
    "markersNeutral (bindExample st)" "distinct (observing (bindExample st) 5)" for st
    by (simp_all add: bindExample_def exampleState_def markersNeutral_def)
  have ds: "dependenciesState (bindExample st) 5 = Some UP_TO_DATE"
    "lowestObserverState (boundState 5 [20, 21, 20] (bindExample st)) 5 = NOT_TRACKING" for st
    by (simp_all add: bindExample_def exampleState_def boundState_def)
  note t1 = bind_raises_state_to_highest_new_dependency [OF pre, of "Some POSSIBLY_STALE", where 'e = string]
  note t0 = bind_raises_state_to_highest_new_dependency [OF pre, of None, where 'e = string]
  have a: "bindDependencies
        (exampleCallback :: oid \<Rightarrow> gstate \<Rightarrow> (string exn + unit) \<times> gstate) 5
        (bindExample (Some POSSIBLY_STALE))
      = exampleCallback 5 ((boundState 5 [20, 21, 20] (bindExample (Some POSSIBLY_STALE)))
           \<lparr>dependenciesState := (dependenciesState (bindExample (Some POSSIBLY_STALE)))
               (5 := Some POSSIBLY_STALE)\<rparr>)"
    using t1 h1 by (simp add: stateValue_POSSIBLY_STALE)
  have b: "bindDependencies
        (exampleCallback :: oid \<Rightarrow> gstate \<Rightarrow> (string exn + unit) \<times> gstate) 5
        (bindExample None)
      = (Inr (), boundState 5 [20, 21, 20] (bindExample None))"
    using t0 h0 by simp
  show ?thesis
    unfolding a b
    by (simp add: pre h1 h0 ds exampleCallback_def)
qed

subsection \<open>The invariant of the subscriptions\<close>

lemma removeObservers_run:
  "distinct obs \<Longrightarrow> n \<le> length obs \<Longrightarrow>
   removeObservers obs n d s =
     s\<lparr>observers := (\<lambda>c. if c \<in> set (take n obs) then remove1 d (observers s c)
                          else observers s c)\<rparr>"
proof (induction n arbitrary: s)
  case 0
  then show ?case by simp
next
  case (Suc n)
  then have ll: "n < length obs" by simp
  have notin: "obs ! n \<notin> set (take n obs)"
    using Suc.prems(1) ll by (auto simp: in_set_conv_nth distinct_conv_nth)
  have tk: "take (Suc n) obs = take n obs @ [obs ! n]"
    using ll by (simp add: take_Suc_conv_app_nth)
  show ?case
    using notin Suc.prems ll
    by (auto simp: Suc.IH tk removeObserver_def fun_eq_iff
             intro!: arg_cong [where f = "\<lambda>a. s\<lparr>observers := a\<rparr>"])
qed

lemma wellFormed_boundState:
  assumes "wellFormed s"
  shows "wellFormed (boundState d cs s)"
proof -
  have sc: "\<And>d c. (d \<in> set (observers s c)) = (c \<in> set (observing s d))"
    and d1: "\<And>d. distinct (observing s d)" and d2: "\<And>c. distinct (observers s c)"
    and n: "\<And>c. diffValue s c = 0"
    using assms by (simp_all add: wellFormed_def subscriptionsConsistent_def markersNeutral_def)
  have "subscriptionsConsistent (boundState d cs s)"
    unfolding subscriptionsConsistent_def boundState_def
    using sc d2 by (auto simp: in_set_remove1)
  moreover have "\<forall>d'. distinct (observing (boundState d cs s) d')"
    using d1 by (simp add: boundState_def)
  moreover have "\<forall>c. distinct (observers (boundState d cs s) c)"
    using d2 sc by (auto simp: boundState_def)
  moreover have "markersNeutral (boundState d cs s)"
    using n by (simp add: markersNeutral_def)
  ultimately show ?thesis by (simp add: wellFormed_def)
qed

lemma wellFormed_dependenciesState_update [simp]:
  "wellFormed (s\<lparr>dependenciesState := x\<rparr>) = wellFormed s"
  by (simp add: wellFormed_def subscriptionsConsistent_def markersNeutral_def)

lemma wellFormed_clearObserving:
  assumes "wellFormed s"
  shows "wellFormed (clearObserving d s)"
proof -
  have sc: "\<And>d c. (d \<in> set (observers s c)) = (c \<in> set (observing s d))"
    and d1: "\<And>d. distinct (observing s d)" and d2: "\<And>c. distinct (observers s c)"
    and n: "\<And>c. diffValue s c = 0"
    using assms by (simp_all add: wellFormed_def subscriptionsConsistent_def markersNeutral_def)
  have eq: "clearObserving d s =
      s\<lparr>observing := (observing s)(d := []),
        observers := (\<lambda>c. if c \<in> set (observing s d) then remove1 d (observers s c)
                            else observers s c),
        dependenciesState := (dependenciesState s)(d := Some NOT_TRACKING)\<rparr>"
    by (simp add: clearObserving_def Let_def removeObservers_run [OF d1] cong: if_cong)
  show ?thesis
    unfolding eq wellFormed_def subscriptionsConsistent_def markersNeutral_def
    using sc d1 d2 n by (auto simp: in_set_remove1)
qed

lemma wellFormed_pendingExample: "wellFormed pendingExample"
  using wellFormed_subscribedExample
  by (simp add: pendingExample_def wellFormed_def subscriptionsConsistent_def markersNeutral_def)

text \<open>
  C6. In a well-formed state a derivation is among the observers of a cell if and only if
  the cell is in its dependency list. \<^verbatim>\<open>clearObserving\<close> takes every well-formed state to
  a well-formed state. \<^verbatim>\<open>bindDependencies\<close> does so from a well-formed state whose buffer
  holds cells in its first \<open>unboundDepsCount\<close> slots (the state at the end of a tracking
  pass), when the stale callback keeps states well formed.
\<close>

theorem bind_and_clear_preserve_subscriptions:
  assumes wf: "wellFormed s"
  shows "(newObserving s d = Some buf
          \<and> take (unboundDepsCount s d) buf = map Some cs
          \<and> length cs = unboundDepsCount s d
          \<and> (\<forall>t. wellFormed t \<longrightarrow> wellFormed (snd (onBecomeStale d t)))
          \<longrightarrow> wellFormed (snd (bindDependencies onBecomeStale d s))
              \<and> subscriptionsConsistent (snd (bindDependencies onBecomeStale d s)))
       \<and> wellFormed (clearObserving d s)
       \<and> subscriptionsConsistent (clearObserving d s)"
proof -
  have n: "\<forall>c. diffValue s c = 0" and dist: "distinct (observing s d)"
    using wf by (simp_all add: wellFormed_def markersNeutral_def)
  have bind: "wellFormed (snd (bindDependencies onBecomeStale d s))"
    if nb: "newObserving s d = Some buf"
      and buf: "take (unboundDepsCount s d) buf = map Some cs"
      and len: "length cs = unboundDepsCount s d"
      and cb: "\<forall>t. wellFormed t \<longrightarrow> wellFormed (snd (onBecomeStale d t))"
    unfolding bindDependencies_run [OF nb buf len n dist] finishBind_def
    using cb wellFormed_boundState [OF wf, of d cs] by simp
  have clear: "wellFormed (clearObserving d s)"
    by (rule wellFormed_clearObserving [OF wf])
  show ?thesis
    using bind clear by (simp add: wellFormed_def)
qed

theorem bind_and_clear_preserve_subscriptions_witness:
  "wellFormed pendingExample
   \<and> newObserving pendingExample 5 = Some [Some 10, Some 11, Some 10, None]
   \<and> take (unboundDepsCount pendingExample 5) [Some 10, Some 11, Some 10, None]
        = map Some [10, 11, 10 :: oid]
   \<and> wellFormed (snd (bindDependencies
        (quietCallback :: oid \<Rightarrow> gstate \<Rightarrow> (string exn + unit) \<times> gstate) 5 pendingExample))
   \<and> subscriptionsConsistent (snd (bindDependencies
        (quietCallback :: oid \<Rightarrow> gstate \<Rightarrow> (string exn + unit) \<times> gstate) 5 pendingExample))
   \<and> wellFormed subscribedExample
   \<and> newObserving subscribedExample 5 = None
   \<and> observing subscribedExample 5 = [10, 14]
   \<and> wellFormed (clearObserving 5 subscribedExample)
   \<and> subscriptionsConsistent (clearObserving 5 subscribedExample)
   \<and> observing (clearObserving 5 subscribedExample) 5 = []
   \<and> observers (clearObserving 5 subscribedExample) 14 = []"
proof -
  have pre: "newObserving pendingExample 5 = Some [Some 10, Some 11, Some 10, None]"
    "take (unboundDepsCount pendingExample 5) [Some 10, Some 11, Some 10, None]
        = map Some [10, 11, 10 :: oid]"
    "length [10, 11, 10 :: oid] = unboundDepsCount pendingExample 5"
    by (simp_all add: pendingExample_def)
  have cb: "\<forall>t. wellFormed t \<longrightarrow> wellFormed (snd
      ((quietCallback :: oid \<Rightarrow> gstate \<Rightarrow> (string exn + unit) \<times> gstate) 5 t))"
    by (simp add: quietCallback_def)
  have o: "newObserving subscribedExample 5 = None" "observing subscribedExample 5 = [10, 14]"
    "observing (clearObserving 5 subscribedExample) 5 = []"
    "observers (clearObserving 5 subscribedExample) 14 = []"
    by (simp_all add: subscribedExample_def exampleState_def clearObserving_def Let_def
          removeObserver_def numeral_2_eq_2)
  note t1 = bind_and_clear_preserve_subscriptions [of pendingExample 5 "[Some 10, Some 11, Some 10, None]" "[10, 11, 10]"
          "quietCallback :: oid \<Rightarrow> gstate \<Rightarrow> (string exn + unit) \<times> gstate",
          OF wellFormed_pendingExample]
  note t2 = bind_and_clear_preserve_subscriptions [of subscribedExample 5 "[]" "[]"
          "quietCallback :: oid \<Rightarrow> gstate \<Rightarrow> (string exn + unit) \<times> gstate",
          OF wellFormed_subscribedExample]
  show ?thesis
    using t1 t2 wellFormed_pendingExample wellFormed_subscribedExample pre cb o
    by blast
qed

subsection \<open>The staleness check\<close>

lemma forceObserving_append:
  "quietScan get isComputedValue d pre s \<Longrightarrow>
   forceObserving get isComputedValue d prev (pre @ rest) s =
     forceObserving get isComputedValue d prev rest (forceAll get isComputedValue pre s)"
  by (induction pre arbitrary: s) (auto split: prod.splits sum.splits)

lemma shouldCompute_possibly_stale:
  "dependenciesState s d = Some POSSIBLY_STALE \<Longrightarrow>
   shouldCompute get isComputedValue d s =
     (case forceObserving get isComputedValue d (trackingDerivation s) (observing s d)
             (s\<lparr>trackingDerivation := None\<rparr>) of
        (b, s2) \<Rightarrow> (Some b, s2))"
  by (simp add: shouldCompute_def untrackedStart_def)

text \<open>
  C2. Let the derivation \<open>d\<close> be \<open>POSSIBLY_STALE\<close>. \<^verbatim>\<open>shouldCompute\<close> forces the computed
  values of the dependency list in the order of the list, and nothing else. If the
  dependencies before \<open>obj\<close> are forced quietly and forcing the computed value \<open>obj\<close> leaves
  \<open>d\<close> \<open>STALE\<close>, the result is true and the state is the one that this forcing left, with the
  tracking derivation restored: no later dependency is forced. If the whole list is forced
  quietly, the result is false and \<open>d\<close> is \<open>UP_TO_DATE\<close> afterwards.
\<close>

theorem shouldCompute_scans_in_order:
  assumes ps: "dependenciesState s d = Some POSSIBLY_STALE"
  shows "(observing s d = pre @ obj # post
          \<and> quietScan get isComputedValue d pre (s\<lparr>trackingDerivation := None\<rparr>)
          \<and> isComputedValue obj
          \<and> get obj (forceAll get isComputedValue pre (s\<lparr>trackingDerivation := None\<rparr>))
               = (Inr v, s2)
          \<and> dependenciesState s2 d = Some STALE
          \<longrightarrow> shouldCompute get isComputedValue d s
                = (Some True, s2\<lparr>trackingDerivation := trackingDerivation s\<rparr>))
       \<and> (quietScan get isComputedValue d (observing s d) (s\<lparr>trackingDerivation := None\<rparr>)
          \<longrightarrow> shouldCompute get isComputedValue d s
                = (Some False,
                   (changeDependenciesStateTo0 d
                      (forceAll get isComputedValue (observing s d)
                         (s\<lparr>trackingDerivation := None\<rparr>)))
                     \<lparr>trackingDerivation := trackingDerivation s\<rparr>)
              \<and> dependenciesState (snd (shouldCompute get isComputedValue d s)) d
                   = Some UP_TO_DATE)"
proof (intro conjI impI)
  assume a: "observing s d = pre @ obj # post
          \<and> quietScan get isComputedValue d pre (s\<lparr>trackingDerivation := None\<rparr>)
          \<and> isComputedValue obj
          \<and> get obj (forceAll get isComputedValue pre (s\<lparr>trackingDerivation := None\<rparr>))
               = (Inr v, s2)
          \<and> dependenciesState s2 d = Some STALE"
  then show "shouldCompute get isComputedValue d s
                = (Some True, s2\<lparr>trackingDerivation := trackingDerivation s\<rparr>)"
    by (simp add: shouldCompute_possibly_stale [OF ps] forceObserving_append untrackedEnd_def)
next
  assume q: "quietScan get isComputedValue d (observing s d) (s\<lparr>trackingDerivation := None\<rparr>)"
  have "forceObserving get isComputedValue d (trackingDerivation s) (observing s d @ [])
          (s\<lparr>trackingDerivation := None\<rparr>)
        = forceObserving get isComputedValue d (trackingDerivation s) []
            (forceAll get isComputedValue (observing s d) (s\<lparr>trackingDerivation := None\<rparr>))"
    by (rule forceObserving_append [OF q])
  then have e: "shouldCompute get isComputedValue d s
                = (Some False,
                   (changeDependenciesStateTo0 d
                      (forceAll get isComputedValue (observing s d)
                         (s\<lparr>trackingDerivation := None\<rparr>)))
                     \<lparr>trackingDerivation := trackingDerivation s\<rparr>)"
    by (simp add: shouldCompute_possibly_stale [OF ps] untrackedEnd_def)
  show "shouldCompute get isComputedValue d s
                = (Some False,
                   (changeDependenciesStateTo0 d
                      (forceAll get isComputedValue (observing s d)
                         (s\<lparr>trackingDerivation := None\<rparr>)))
                     \<lparr>trackingDerivation := trackingDerivation s\<rparr>)"
    by (rule e)
  show "dependenciesState (snd (shouldCompute get isComputedValue d s)) d = Some UP_TO_DATE"
    by (simp add: e)
qed

theorem shouldCompute_scans_in_order_witness:
  "dependenciesState (possiblyStaleExample [10, 20, 21, 23]) 5 = Some POSSIBLY_STALE
   \<and> fst (shouldCompute exampleGet exampleIsComputed 5 (possiblyStaleExample [10, 20, 21, 23]))
       = Some True
   \<and> globalRunId (snd (shouldCompute exampleGet exampleIsComputed 5
        (possiblyStaleExample [10, 20, 21, 23]))) = 0
   \<and> trackingDerivation (snd (shouldCompute exampleGet exampleIsComputed 5
        (possiblyStaleExample [10, 20, 21, 23]))) = Some 7
   \<and> quietScan exampleGet exampleIsComputed 5 [10, 20, 23]
        ((possiblyStaleExample [10, 20, 23])\<lparr>trackingDerivation := None\<rparr>)
   \<and> fst (shouldCompute exampleGet exampleIsComputed 5 (possiblyStaleExample [10, 20, 23]))
       = Some False
   \<and> dependenciesState (snd (shouldCompute exampleGet exampleIsComputed 5
        (possiblyStaleExample [10, 20, 23]))) 5 = Some UP_TO_DATE
   \<and> globalRunId (snd (shouldCompute exampleGet exampleIsComputed 5
        (possiblyStaleExample [10, 20, 23]))) = 1
   \<and> trackingDerivation (snd (shouldCompute exampleGet exampleIsComputed 5
        (possiblyStaleExample [10, 20, 23]))) = Some 7"
proof -
  let ?a = "possiblyStaleExample [10, 20, 21, 23]"
  let ?b = "possiblyStaleExample [10, 20, 23]"
  have ps: "dependenciesState (possiblyStaleExample deps) 5 = Some POSSIBLY_STALE" for deps
    by (simp add: possiblyStaleExample_def exampleState_def)
  have a: "shouldCompute exampleGet exampleIsComputed 5 ?a
      = (Some True,
         (?a\<lparr>trackingDerivation := None,
              dependenciesState := (dependenciesState ?a)(5 := Some STALE)\<rparr>)
           \<lparr>trackingDerivation := trackingDerivation ?a\<rparr>)"
    using shouldCompute_scans_in_order [OF ps, of "[10, 20, 21, 23]" "[10, 20]" 21 "[23]" exampleGet exampleIsComputed "()"
        "?a\<lparr>trackingDerivation := None,
              dependenciesState := (dependenciesState ?a)(5 := Some STALE)\<rparr>"]
    by (simp add: possiblyStaleExample_def exampleState_def exampleGet_def exampleIsComputed_def)
  have q: "quietScan exampleGet exampleIsComputed 5 [10, 20, 23] (?b\<lparr>trackingDerivation := None\<rparr>)"
    by (simp add: possiblyStaleExample_def exampleState_def exampleGet_def exampleIsComputed_def)
  have b: "shouldCompute exampleGet exampleIsComputed 5 ?b
      = (Some False,
         (changeDependenciesStateTo0 5
            (forceAll exampleGet exampleIsComputed (observing ?b 5)
               (?b\<lparr>trackingDerivation := None\<rparr>)))
           \<lparr>trackingDerivation := trackingDerivation ?b\<rparr>)"
    and b2: "dependenciesState (snd (shouldCompute exampleGet exampleIsComputed 5 ?b)) 5
       = Some UP_TO_DATE"
    using shouldCompute_scans_in_order [OF ps, of "[10, 20, 23]" "[]" 0 "[]" exampleGet exampleIsComputed "()" ?b] q
    by (simp_all add: possiblyStaleExample_def exampleState_def)
  show ?thesis
    unfolding a b using q ps
    by (simp add: possiblyStaleExample_def exampleState_def exampleGet_def exampleIsComputed_def)
qed

text \<open>
  C8. Let the derivation \<open>d\<close> be \<open>POSSIBLY_STALE\<close>. If the dependencies before \<open>obj\<close> are
  forced quietly and forcing the computed value \<open>obj\<close> raises, \<^verbatim>\<open>shouldCompute\<close> returns
  true, normally; the state is the one the failed forcing left, with the tracking
  derivation restored, so the state of \<open>d\<close> is not set to \<open>UP_TO_DATE\<close>.
\<close>

theorem shouldCompute_dependency_failure_means_changed:
  assumes ps: "dependenciesState s d = Some POSSIBLY_STALE"
    and split: "observing s d = pre @ obj # post"
    and quiet: "quietScan get isComputedValue d pre (s\<lparr>trackingDerivation := None\<rparr>)"
    and comp: "isComputedValue obj"
    and raise: "get obj (forceAll get isComputedValue pre (s\<lparr>trackingDerivation := None\<rparr>))
               = (Inl e, s2)"
  shows "shouldCompute get isComputedValue d s
           = (Some True, s2\<lparr>trackingDerivation := trackingDerivation s\<rparr>)
       \<and> dependenciesState (snd (shouldCompute get isComputedValue d s)) d
           = dependenciesState s2 d"
  using split quiet comp raise
  by (simp add: shouldCompute_possibly_stale [OF ps] forceObserving_append untrackedEnd_def)

theorem shouldCompute_dependency_failure_means_changed_witness:
  "dependenciesState (possiblyStaleExample [10, 20, 22, 23]) 5 = Some POSSIBLY_STALE
   \<and> quietScan exampleGet exampleIsComputed 5 [10, 20]
        ((possiblyStaleExample [10, 20, 22, 23])\<lparr>trackingDerivation := None\<rparr>)
   \<and> exampleIsComputed 22
   \<and> fst (exampleGet 22 (forceAll exampleGet exampleIsComputed [10, 20]
        ((possiblyStaleExample [10, 20, 22, 23])\<lparr>trackingDerivation := None\<rparr>))) = Inl ''boom''
   \<and> fst (shouldCompute exampleGet exampleIsComputed 5 (possiblyStaleExample [10, 20, 22, 23]))
       = Some True
   \<and> dependenciesState (snd (shouldCompute exampleGet exampleIsComputed 5
        (possiblyStaleExample [10, 20, 22, 23]))) 5 = Some POSSIBLY_STALE
   \<and> globalRunId (snd (shouldCompute exampleGet exampleIsComputed 5
        (possiblyStaleExample [10, 20, 22, 23]))) = 0
   \<and> trackingDerivation (snd (shouldCompute exampleGet exampleIsComputed 5
        (possiblyStaleExample [10, 20, 22, 23]))) = Some 7"
proof -
  let ?c = "possiblyStaleExample [10, 20, 22, 23]"
  have ps: "dependenciesState ?c 5 = Some POSSIBLY_STALE"
    and sp: "observing ?c 5 = [10, 20] @ 22 # [23]"
    and q: "quietScan exampleGet exampleIsComputed 5 [10, 20] (?c\<lparr>trackingDerivation := None\<rparr>)"
    and ic: "exampleIsComputed 22"
    and r: "exampleGet 22 (forceAll exampleGet exampleIsComputed [10, 20]
              (?c\<lparr>trackingDerivation := None\<rparr>))
            = (Inl ''boom'', ?c\<lparr>trackingDerivation := None\<rparr>)"
    by (simp_all add: possiblyStaleExample_def exampleState_def exampleGet_def
          exampleIsComputed_def)
  note t = shouldCompute_dependency_failure_means_changed [OF ps sp q ic r]
  show ?thesis
    using t ps q ic r
    by (simp add: possiblyStaleExample_def exampleState_def)
qed

end
